theory Spec2Isabelle
  imports Complex_Main "HOL-Library.Word" "HOL-Library.Sublist"
begin

unbundle bit_operations_syntax

section \<open>C strings and the character classes of \<open>ctype.h\<close>\<close>

text \<open>
  A C string is modelled by the list of its characters before the terminating NUL; the
  terminator is the end of the list.  A pointer into a string is the suffix of the list
  that starts where the pointer points, so \<open>*p\<close> is the head of the suffix (NUL for the
  empty suffix) and \<open>p++\<close> is its tail.  The character classes are those of the "C"
  locale.
\<close>

abbreviation NUL :: char where
  "NUL \<equiv> CHR 0x00"

definition isdigit :: "char \<Rightarrow> bool" where
  "isdigit c = (c \<in> set ''0123456789'')"

definition isupper :: "char \<Rightarrow> bool" where
  "isupper c = (c \<in> set ''ABCDEFGHIJKLMNOPQRSTUVWXYZ'')"

definition islower :: "char \<Rightarrow> bool" where
  "islower c = (c \<in> set ''abcdefghijklmnopqrstuvwxyz'')"

definition isalpha :: "char \<Rightarrow> bool" where
  "isalpha c = (isupper c \<or> islower c)"

definition isalnum :: "char \<Rightarrow> bool" where
  "isalnum c = (isalpha c \<or> isdigit c)"

definition isspace :: "char \<Rightarrow> bool" where
  "isspace c = (c \<in> set [CHR '' '', CHR 0x09, CHR 0x0A, CHR 0x0B, CHR 0x0C, CHR 0x0D])"

definition toupper :: "char \<Rightarrow> char" where
  "toupper c =
     (case map_of (zip ''abcdefghijklmnopqrstuvwxyz'' ''ABCDEFGHIJKLMNOPQRSTUVWXYZ'') c of
        None \<Rightarrow> c
      | Some u \<Rightarrow> u)"

definition tolower :: "char \<Rightarrow> char" where
  "tolower c =
     (case map_of (zip ''ABCDEFGHIJKLMNOPQRSTUVWXYZ'' ''abcdefghijklmnopqrstuvwxyz'') c of
        None \<Rightarrow> c
      | Some l \<Rightarrow> l)"

text \<open>\<open>*p\<close> for a pointer \<open>p\<close> into a C string.\<close>

definition deref :: "string \<Rightarrow> char" where
  "deref p = (case p of [] \<Rightarrow> NUL | c # _ \<Rightarrow> c)"

text \<open>
  \<open>strstr\<close> of the C library: the suffix of the haystack that starts at the first
  occurrence of the needle, or nothing (the null pointer).
\<close>

fun strstr :: "string \<Rightarrow> string \<Rightarrow> string option" where
  "strstr [] needle = (if needle = [] then Some [] else None)"
| "strstr (c # cs) needle =
     (if prefix needle (c # cs) then Some (c # cs) else strstr cs needle)"

section \<open>Feature strings owned by the plugin\<close>

text \<open>
  \<open>str_startswith\<close>: the loop walks both strings while the budget \<open>string_len\<close> lasts
  and the characters agree; the result is whether the prefix was used up.
\<close>

fun str_startswith_loop :: "string \<Rightarrow> string \<Rightarrow> nat \<Rightarrow> bool" where
  "str_startswith_loop (c # cs) (p # ps) (Suc n) =
     (if c = p then str_startswith_loop cs ps n else False)"
| "str_startswith_loop s pre n = (pre = [])"

definition str_startswith :: "string \<Rightarrow> string \<Rightarrow> int \<Rightarrow> bool" where
  "str_startswith s pre string_len =
     str_startswith_loop s pre (if string_len < 0 then length s else nat string_len)"

text \<open>
  \<open>cpuinfo_features_is_str_ours\<close>.  The first argument says whether the plugin was built
  with \<open>HAVE_PCI_DETECTION\<close>, which adds the \<open>PCI::\<close> prefix.
\<close>

definition cpuinfo_features_is_str_ours :: "bool \<Rightarrow> string \<Rightarrow> int \<Rightarrow> bool" where
  "cpuinfo_features_is_str_ours have_pci feature_str feature_str_len =
     (let n = (if feature_str_len \<le> 0 then int (length feature_str) else feature_str_len) in
      if str_startswith feature_str ''VENDOR::'' n then True
      else if str_startswith feature_str ''MODEL::'' n then True
      else if str_startswith feature_str ''CACHE::'' n then True
      else if str_startswith feature_str ''ISA::'' n then True
      else if have_pci \<and> str_startswith feature_str ''PCI::'' n then True
      else False)"

section \<open>Searching a list of words: \<open>__contains_str\<close>\<close>

text \<open>
  The loop of \<open>__contains_str\<close>: find the next occurrence of the needle at or after \<open>p\<close>;
  accept it when the character behind it is NUL or a delimiter; otherwise go on behind
  that occurrence.  With an empty needle and a first character that is not a delimiter
  the C loop never advances, so the loop is a partial function.
\<close>

partial_function (option) contains_str_loop :: "string \<Rightarrow> string \<Rightarrow> string \<Rightarrow> bool option" where
  "contains_str_loop needle delimiter p =
     (if p = [] then Some False
      else case strstr p needle of
             None \<Rightarrow> Some False
           | Some found \<Rightarrow>
               (let next_char = drop (length needle) found in
                if deref next_char = NUL \<or> deref next_char \<in> set delimiter then Some True
                else contains_str_loop needle delimiter next_char))"

declare contains_str_loop.simps [code]

text \<open>
  \<open>__contains_str\<close>: a null or empty haystack holds nothing; a null or empty delimiter
  set stands for blank and tab.
\<close>

definition contains_str :: "string option \<Rightarrow> string \<Rightarrow> string option \<Rightarrow> bool option" where
  "contains_str haystack needle delimiter =
     (case haystack of
        None \<Rightarrow> Some False
      | Some h \<Rightarrow>
          if h = [] then Some False
          else contains_str_loop needle
                 (case delimiter of
                    None \<Rightarrow> [CHR '' '', CHR 0x09]
                  | Some d \<Rightarrow> if d = [] then [CHR '' '', CHR 0x09] else d) h)"

section \<open>The record of processor features\<close>

text \<open>
  What can happen to a call besides returning: \<open>NoReturn\<close> is a loop that never ends,
  \<open>ReadPastEnd\<close> is a read behind the NUL that ends a C string and \<open>OutOfRange\<close> is the
  conversion to \<open>unsigned int\<close> of a floating-point value that does not fit; C leaves
  both undefined.
\<close>

datatype error = NoReturn | ReadPastEnd | OutOfRange

text \<open>
  \<open>cpuinfo_features_t\<close>.  The two strings are pointers that may be null; \<open>cache_kb\<close> and
  \<open>flags\<close> are \<open>unsigned int\<close>.  \<open>cache_kb\<close> is only ever assigned and printed, so it is a
  natural number; \<open>flags\<close> is a bitmap.
\<close>

record cpuinfo_features =
  vendor_id :: "string option"
  model_name :: "string option"
  cache_kb :: nat
  flags :: "32 word"

text \<open>\<open>cpuinfo_features_init\<close>: every field zero.\<close>

definition cpuinfo_features_init :: cpuinfo_features where
  "cpuinfo_features_init = \<lparr>vendor_id = None, model_name = None, cache_kb = 0, flags = 0\<rparr>"

text \<open>The bit indices \<open>cpuinfo_flags_t\<close> and their names, in the order of the enumeration.\<close>

definition cpuinfo_flags_MAX :: nat where
  "cpuinfo_flags_MAX = 13"

definition cpuinfo_flags_strings :: "string list" where
  "cpuinfo_flags_strings =
     [''sse'', ''sse2'', ''ssse3'', ''sse4_1'', ''sse4_2'', ''avx'', ''avx2'', ''avx512f'',
      ''avx512dq'', ''avx512cd'', ''avx512bw'', ''avx512vl'', ''avx512_vnni'']"

section \<open>The ISA flags\<close>

text \<open>
  The loop of \<open>cpuinfo_parse_flags\<close>: \<open>i\<close> runs over the enumeration and the mask is
  shifted left once per round.
\<close>

function cpuinfo_parse_flags_loop :: "string \<Rightarrow> nat \<Rightarrow> 32 word \<Rightarrow> 32 word \<Rightarrow> error + 32 word" where
  "cpuinfo_parse_flags_loop txt i bitmask fl =
     (if i < cpuinfo_flags_MAX then
        (case contains_str (Some txt) (cpuinfo_flags_strings ! i) None of
           None \<Rightarrow> Inl NoReturn
         | Some found \<Rightarrow>
             cpuinfo_parse_flags_loop txt (i + 1) (push_bit 1 bitmask)
               (if found then fl OR bitmask else fl))
      else Inr fl)"
  by pat_completeness auto
termination
  by (relation "measure (\<lambda>(txt, i, bitmask, fl). cpuinfo_flags_MAX - i)") auto

declare cpuinfo_parse_flags_loop.simps [simp del]

text \<open>\<open>cpuinfo_parse_flags\<close> clears the bitmap, runs the loop and returns true.\<close>

definition cpuinfo_parse_flags :: "cpuinfo_features \<Rightarrow> string \<Rightarrow> error + bool \<times> cpuinfo_features" where
  "cpuinfo_parse_flags cif txt =
     (case cpuinfo_parse_flags_loop txt 0 1 0 of
        Inl e \<Rightarrow> Inl e
      | Inr fl \<Rightarrow> Inr (True, cif\<lparr>flags := fl\<rparr>))"

text \<open>
  The words of a flags line as the specification reads it: the maximal runs of
  characters between blanks and tabs.
\<close>

fun split_on :: "(char \<Rightarrow> bool) \<Rightarrow> string \<Rightarrow> string list" where
  "split_on is_sep [] = [[]]"
| "split_on is_sep (c # cs) =
     (if is_sep c then [] # split_on is_sep cs
      else (case split_on is_sep cs of
              [] \<Rightarrow> [[c]]
            | w # ws \<Rightarrow> (c # w) # ws))"

definition spec_tokens :: "(char \<Rightarrow> bool) \<Rightarrow> string \<Rightarrow> string list" where
  "spec_tokens is_sep s = filter (\<lambda>w. w \<noteq> []) (split_on is_sep s)"


section \<open>Rendering the record as feature strings\<close>

text \<open>
  \<open>xstrdup\<close> and \<open>xstrfmtcat\<close> belong to Slurm's string library, which the plugin links
  against: \<open>xstrdup\<close> copies a string (a null pointer stays null) and \<open>xstrfmtcat\<close>
  appends the formatted text to the string, allocating it when the pointer is null.  The
  second argument of the model is the text after formatting.
\<close>

definition xstrdup :: "string option \<Rightarrow> string option" where
  "xstrdup s = s"

definition xstrfmtcat :: "string option \<Rightarrow> string \<Rightarrow> string option" where
  "xstrfmtcat str formatted =
     (case str of None \<Rightarrow> Some formatted | Some s \<Rightarrow> Some (s @ formatted))"

text \<open>The conversion \<open>%u\<close> of \<open>printf\<close>: the decimal digits of an unsigned number.\<close>

definition digit_char :: "nat \<Rightarrow> char" where
  "digit_char d = ''0123456789'' ! d"

fun decimal :: "nat \<Rightarrow> string" where
  "decimal n = (if n < 10 then [digit_char n] else decimal (n div 10) @ [digit_char (n mod 10)])"

declare decimal.simps [simp del]

text \<open>
  The loop over the ISA bits in \<open>node_features_p_node_state\<close>: a set bit appends
  \<open>ISA::\<close> and the name of the bit, behind the delimiter.
\<close>

function node_state_isa_loop ::
  "32 word \<Rightarrow> nat \<Rightarrow> 32 word \<Rightarrow> string option \<Rightarrow> string \<Rightarrow> string option" where
  "node_state_isa_loop fl i bitmask add_features delim =
     (if i < cpuinfo_flags_MAX then
        (if fl AND bitmask = bitmask
         then node_state_isa_loop fl (i + 1) (push_bit 1 bitmask)
                (xstrfmtcat add_features (delim @ ''ISA::'' @ cpuinfo_flags_strings ! i)) '',''
         else node_state_isa_loop fl (i + 1) (push_bit 1 bitmask) add_features delim)
      else add_features)"
  by pat_completeness auto
termination
  by (relation "measure (\<lambda>(fl, i, bitmask, add_features, delim). cpuinfo_flags_MAX - i)") auto

declare node_state_isa_loop.simps [simp del]

text \<open>
  The block of \<open>node_features_p_node_state\<close> that builds \<open>add_features\<close> from the parsed
  record.  \<open>pci_features\<close> is the value of \<open>add_features\<close> when the block starts: null
  unless the plugin was built with \<open>HAVE_PCI_DETECTION\<close> and \<open>pci_device_lookup\<close> found
  devices.  The line that appends \<open>CACHE::\<close> tests \<open>model_name\<close>, as the line before it
  does.
\<close>

definition node_state_add_features :: "string option \<Rightarrow> cpuinfo_features \<Rightarrow> string option" where
  "node_state_add_features pci_features node_features =
     (let add_features = pci_features;
          delim = (case add_features of None \<Rightarrow> '''' | Some s \<Rightarrow> if s \<noteq> [] then '','' else '''');
          (add_features, delim) =
             (case vendor_id node_features of
                None \<Rightarrow> (add_features, delim)
              | Some v \<Rightarrow> (xstrfmtcat add_features (delim @ ''VENDOR::'' @ v), '',''));
          (add_features, delim) =
             (case model_name node_features of
                None \<Rightarrow> (add_features, delim)
              | Some m \<Rightarrow> (xstrfmtcat add_features (delim @ ''MODEL::'' @ m), '',''));
          (add_features, delim) =
             (case model_name node_features of
                None \<Rightarrow> (add_features, delim)
              | Some m \<Rightarrow>
                  (xstrfmtcat add_features
                     (delim @ ''CACHE::'' @ decimal (cache_kb node_features) @ ''KB''), '',''))
      in node_state_isa_loop (flags node_features) 0 1 add_features delim)"

text \<open>
  \<open>cpuinfo_features_summarize\<close> writes the same list to the standard output; the model
  returns the text written.  Here the \<open>CACHE::\<close> item is printed when \<open>cache_kb\<close> is not
  zero.
\<close>

function summarize_isa_loop :: "32 word \<Rightarrow> nat \<Rightarrow> 32 word \<Rightarrow> string \<Rightarrow> string \<Rightarrow> string" where
  "summarize_isa_loop fl i bitmask out delim =
     (if i < cpuinfo_flags_MAX then
        (if fl AND bitmask = bitmask
         then summarize_isa_loop fl (i + 1) (push_bit 1 bitmask)
                (out @ delim @ ''ISA::'' @ cpuinfo_flags_strings ! i) '',''
         else summarize_isa_loop fl (i + 1) (push_bit 1 bitmask) out delim)
      else out)"
  by pat_completeness auto
termination
  by (relation "measure (\<lambda>(fl, i, bitmask, out, delim). cpuinfo_flags_MAX - i)") auto

declare summarize_isa_loop.simps [simp del]

definition cpuinfo_features_summarize :: "cpuinfo_features \<Rightarrow> string" where
  "cpuinfo_features_summarize cif =
     (let out = ''''; delim = '''';
          (out, delim) =
             (case vendor_id cif of
                None \<Rightarrow> (out, delim)
              | Some v \<Rightarrow> (out @ delim @ ''VENDOR::'' @ v, '',''));
          (out, delim) =
             (case model_name cif of
                None \<Rightarrow> (out, delim)
              | Some m \<Rightarrow> (out @ delim @ ''MODEL::'' @ m, '',''));
          (out, delim) =
             (if cache_kb cif \<noteq> 0
              then (out @ delim @ ''CACHE::'' @ decimal (cache_kb cif) @ ''KB'', '','')
              else (out, delim))
      in summarize_isa_loop (flags cif) 0 1 out delim @ [CHR 0x0A])"

text \<open>
  The rendering as the specification words it: the items in the fixed order VENDOR,
  MODEL, CACHE, then one ISA item per set bit in the order of the enumeration, joined
  by commas; nothing at all (a null pointer) when there is no item.  \<open>with_cache\<close> says
  whether the CACHE item is among them.
\<close>

definition isa_items :: "32 word \<Rightarrow> string list" where
  "isa_items fl =
     map (\<lambda>i. ''ISA::'' @ cpuinfo_flags_strings ! i) (filter (bit fl) [0..<cpuinfo_flags_MAX])"

definition render_items :: "bool \<Rightarrow> cpuinfo_features \<Rightarrow> string list" where
  "render_items with_cache cif =
     (case vendor_id cif of None \<Rightarrow> [] | Some v \<Rightarrow> [''VENDOR::'' @ v]) @
     (case model_name cif of None \<Rightarrow> [] | Some m \<Rightarrow> [''MODEL::'' @ m]) @
     (if with_cache then [''CACHE::'' @ decimal (cache_kb cif) @ ''KB''] else []) @
     isa_items (flags cif)"

definition join_with :: "string \<Rightarrow> string list \<Rightarrow> string" where
  "join_with d items =
     (case items of [] \<Rightarrow> [] | x # xs \<Rightarrow> x @ concat (map (\<lambda>y. d @ y) xs))"

definition join_opt :: "string \<Rightarrow> string list \<Rightarrow> string option" where
  "join_opt d items = (if items = [] then None else Some (join_with d items))"

text \<open>
  Appending a list of items one after the other, as the calls of \<open>xstrfmtcat\<close> and of
  \<open>printf\<close> do: the delimiter is a comma from the second item on.
\<close>

fun cat_items :: "string option \<Rightarrow> string \<Rightarrow> string list \<Rightarrow> string option" where
  "cat_items out delim [] = out"
| "cat_items out delim (x # xs) = cat_items (xstrfmtcat out (delim @ x)) '','' xs"

fun cat_text :: "string \<Rightarrow> string \<Rightarrow> string list \<Rightarrow> string" where
  "cat_text out delim [] = out"
| "cat_text out delim (x # xs) = cat_text (out @ delim @ x) '','' xs"

section \<open>Tokens: \<open>strtok_r\<close> on a private copy\<close>

text \<open>
  \<open>strtok_r\<close> of the C library writes into the buffer it scans, so the buffer is
  explicit: the list holds the bytes of the array before its last NUL, and a NUL that
  \<open>strtok_r\<close> stores inside is an element of the list.  A pointer into the buffer is an
  index, and \<open>cstr_at\<close> reads the C string that starts there.
\<close>

definition cstr_at :: "string \<Rightarrow> nat \<Rightarrow> string" where
  "cstr_at buf i = takeWhile (\<lambda>c. c \<noteq> NUL) (drop i buf)"

text \<open>
  One call of \<open>strtok_r\<close> that scans from index \<open>pos\<close> (the start of the buffer on the
  first call, the saved pointer afterwards): skip the delimiters; at the end of the
  string there is no token; otherwise the token runs to the next delimiter, which is
  overwritten with NUL, or to the end of the string.  The result is the token's start,
  the buffer and the new saved pointer.
\<close>

definition strtok_r :: "string \<Rightarrow> nat \<Rightarrow> string \<Rightarrow> (nat \<times> string \<times> nat) option" where
  "strtok_r buf pos delim =
     (let start = pos + length (takeWhile (\<lambda>c. c \<in> set delim) (cstr_at buf pos)) in
      if cstr_at buf start = [] then None
      else
        let tok_end = start + length (takeWhile (\<lambda>c. c \<notin> set delim) (cstr_at buf start)) in
        if length buf \<le> tok_end \<or> buf ! tok_end = NUL then Some (start, buf, tok_end)
        else Some (start, buf[tok_end := NUL], tok_end + 1))"

text \<open>
  The tokens of a list as the specification reads them: the non-empty pieces between
  the separators, in their order.  (\<open>split_on\<close> and \<open>spec_tokens\<close> are defined with the
  flags above.)
\<close>

definition is_amp :: "char \<Rightarrow> bool" where
  "is_amp c = (c = CHR ''&'')"

definition is_comma :: "char \<Rightarrow> bool" where
  "is_comma c = (c = CHR '','')"

text \<open>Each call of \<open>strtok_r\<close> that finds a token moves the saved pointer forward.\<close>

lemma takeWhile_drop_le:
  "k \<le> length (takeWhile P xs) \<Longrightarrow> takeWhile P (drop k xs) = drop k (takeWhile P xs)"
proof (induction xs arbitrary: k)
  case Nil
  then show ?case by simp
next
  case (Cons x xs)
  then show ?case by (cases k) (auto split: if_splits)
qed

lemma cstr_at_drop:
  assumes "k \<le> length (cstr_at buf pos)"
  shows "cstr_at buf (pos + k) = drop k (cstr_at buf pos)"
  using takeWhile_drop_le[of k "\<lambda>c. c \<noteq> NUL" "drop pos buf"] assms
  by (simp add: cstr_at_def add.commute)

lemma cstr_at_length: "pos + length (cstr_at buf pos) \<le> length buf \<or> cstr_at buf pos = []"
proof -
  have "length (cstr_at buf pos) \<le> length (drop pos buf)"
    unfolding cstr_at_def by (rule length_takeWhile_le)
  then show ?thesis by (cases "pos \<le> length buf") (auto simp: cstr_at_def)
qed

lemma strtok_r_Some_bounds:
  assumes "strtok_r buf pos delim = Some (t, buf', save')"
  shows "length buf' = length buf \<and> pos < save' \<and> save' \<le> length buf \<and> pos \<le> t \<and> t < save'"
proof -
  define k where "k = length (takeWhile (\<lambda>c. c \<in> set delim) (cstr_at buf pos))"
  define start where "start = pos + k"
  define tok where "tok = takeWhile (\<lambda>c. c \<notin> set delim) (cstr_at buf start)"
  have kle: "k \<le> length (cstr_at buf pos)" by (simp add: k_def length_takeWhile_le)
  have cs: "cstr_at buf start = dropWhile (\<lambda>c. c \<in> set delim) (cstr_at buf pos)"
    unfolding start_def using cstr_at_drop[OF kle] by (simp add: k_def dropWhile_eq_drop)
  from assms have ne: "cstr_at buf start \<noteq> []"
    by (auto simp: strtok_r_def Let_def start_def k_def split: if_splits)
  then have "hd (cstr_at buf start) \<notin> set delim" using cs by (metis hd_dropWhile)
  then have tne: "tok \<noteq> []" using ne by (cases "cstr_at buf start") (auto simp: tok_def)
  have "length tok \<le> length (cstr_at buf start)" by (simp add: tok_def length_takeWhile_le)
  moreover have "start + length (cstr_at buf start) \<le> length buf"
    using cstr_at_length[of start buf] ne by blast
  ultimately have tl: "start + length tok \<le> length buf" by linarith
  from assms have t: "t = start" and r: "(buf' = buf \<and> save' = start + length tok)
      \<or> (buf' = buf[start + length tok := NUL] \<and> save' = start + length tok + 1 \<and> start + length tok < length buf)"
    by (auto simp: strtok_r_def Let_def start_def k_def tok_def split: if_splits)
  from r tl tne t show ?thesis by (auto simp: start_def)
qed

section \<open>\<open>node_features_p_job_xlate\<close>\<close>

text \<open>
  The loop over the tokens of the copy.  A token that carries one of the plugin's
  prefixes is appended to \<open>out_features\<close> behind \<open>delim\<close>, which is empty at first and a
  comma afterwards.  The loop hands back the copy as \<open>strtok_r\<close> left it.
\<close>

function job_xlate_loop ::
  "bool \<Rightarrow> string \<Rightarrow> nat \<Rightarrow> string option \<Rightarrow> string \<Rightarrow> string \<times> string option" where
  "job_xlate_loop have_pci copy save_ptr out_features delim =
     (case strtok_r copy save_ptr ''&'' of
        None \<Rightarrow> (copy, out_features)
      | Some (tokptr, copy', save_ptr') \<Rightarrow>
          if cpuinfo_features_is_str_ours have_pci (cstr_at copy' tokptr) (- 1)
          then job_xlate_loop have_pci copy' save_ptr'
                 (xstrfmtcat out_features (delim @ cstr_at copy' tokptr)) '',''
          else job_xlate_loop have_pci copy' save_ptr' out_features delim)"
  by pat_completeness auto
termination
proof (relation "measure (\<lambda>(have_pci, copy, save_ptr, out_features, delim). length copy - save_ptr)")
  show "wf (measure (\<lambda>(have_pci, copy, save_ptr, out_features, delim). length copy - save_ptr))"
    by simp
next
  fix have_pci :: bool and copy :: string and save_ptr :: nat and out_features :: "string option"
    and delim :: string and x2 tokptr y copy' save_ptr'
  assume "strtok_r copy save_ptr ''&'' = Some x2" "(tokptr, y) = x2" "(copy', save_ptr') = y"
  then have "strtok_r copy save_ptr ''&'' = Some (tokptr, copy', save_ptr')" by simp
  from strtok_r_Some_bounds[OF this]
  have "length copy' - save_ptr' < length copy - save_ptr" by linarith
  then show "((have_pci, copy', save_ptr',
        xstrfmtcat out_features (delim @ cstr_at copy' tokptr), '',''),
       have_pci, copy, save_ptr, out_features, delim)
      \<in> measure (\<lambda>(have_pci, copy, save_ptr, out_features, delim). length copy - save_ptr)"
    and "((have_pci, copy', save_ptr', out_features, delim),
       have_pci, copy, save_ptr, out_features, delim)
      \<in> measure (\<lambda>(have_pci, copy, save_ptr, out_features, delim). length copy - save_ptr)"
    by simp_all
qed

declare job_xlate_loop.simps [simp del]

text \<open>
  \<open>node_features_p_job_xlate\<close>: a null or empty expression gives null.  When no token
  was appended, the function returns the copy itself, which \<open>strtok_r\<close> has cut at the
  end of the first token.
\<close>

definition node_features_p_job_xlate :: "bool \<Rightarrow> string option \<Rightarrow> string option" where
  "node_features_p_job_xlate have_pci job_features =
     (case job_features of
        None \<Rightarrow> None
      | Some jf \<Rightarrow>
          if jf = [] then None
          else
            (case job_xlate_loop have_pci jf 0 None [] of
               (copy, None) \<Rightarrow> Some (cstr_at copy 0)
             | (copy, Some out_features) \<Rightarrow> Some out_features))"

section \<open>\<open>node_features_p_node_xlate\<close>\<close>

text \<open>
  The loop over the tokens of the copy of \<open>orig_features\<close>.  A token without a prefix
  of the plugin is appended to \<open>out_features\<close> unless \<open>__contains_str\<close>, with the comma
  as the delimiter, finds it there.
\<close>

function node_xlate_loop ::
  "bool \<Rightarrow> string \<Rightarrow> nat \<Rightarrow> string option \<Rightarrow> string \<Rightarrow> error + string option" where
  "node_xlate_loop have_pci orig_copy saveptr out_features delim =
     (case strtok_r orig_copy saveptr '','' of
        None \<Rightarrow> Inr out_features
      | Some (tokptr, orig_copy', saveptr') \<Rightarrow>
          if \<not> cpuinfo_features_is_str_ours have_pci (cstr_at orig_copy' tokptr) (- 1)
          then (case contains_str out_features (cstr_at orig_copy' tokptr) (Some '','') of
                  None \<Rightarrow> Inl NoReturn
                | Some present \<Rightarrow>
                    if \<not> present
                    then node_xlate_loop have_pci orig_copy' saveptr'
                           (xstrfmtcat out_features (delim @ cstr_at orig_copy' tokptr)) '',''
                    else node_xlate_loop have_pci orig_copy' saveptr' out_features delim)
          else node_xlate_loop have_pci orig_copy' saveptr' out_features delim)"
  by pat_completeness auto
termination
proof (relation "measure (\<lambda>(have_pci, orig_copy, saveptr, out_features, delim). length orig_copy - saveptr)")
  show "wf (measure (\<lambda>(have_pci, orig_copy, saveptr, out_features, delim). length orig_copy - saveptr))"
    by simp
next
  fix have_pci :: bool and orig_copy :: string and saveptr :: nat
    and out_features :: "string option" and delim :: string
    and x2 tokptr y orig_copy' saveptr'
  assume "strtok_r orig_copy saveptr '','' = Some x2" "(tokptr, y) = x2" "(orig_copy', saveptr') = y"
  then have "strtok_r orig_copy saveptr '','' = Some (tokptr, orig_copy', saveptr')" by simp
  from strtok_r_Some_bounds[OF this]
  have "length orig_copy' - saveptr' < length orig_copy - saveptr" by linarith
  then show "((have_pci, orig_copy', saveptr',
        xstrfmtcat out_features (delim @ cstr_at orig_copy' tokptr), '',''),
       have_pci, orig_copy, saveptr, out_features, delim)
      \<in> measure (\<lambda>(have_pci, orig_copy, saveptr, out_features, delim). length orig_copy - saveptr)"
    and "((have_pci, orig_copy', saveptr', out_features, delim),
       have_pci, orig_copy, saveptr, out_features, delim)
      \<in> measure (\<lambda>(have_pci, orig_copy, saveptr, out_features, delim). length orig_copy - saveptr)"
    and "((have_pci, orig_copy', saveptr', out_features, delim),
       have_pci, orig_copy, saveptr, out_features, delim)
      \<in> measure (\<lambda>(have_pci, orig_copy, saveptr, out_features, delim). length orig_copy - saveptr)"
    by simp_all
qed

declare node_xlate_loop.simps [simp del]

text \<open>
  \<open>node_features_p_node_xlate\<close>: without new features the result is a copy of the
  original ones, without original features a copy of the new ones; otherwise the result
  starts as a copy of the new features and the loop runs over a copy of the original
  ones.  \<open>avail_features\<close> is only logged.
\<close>

definition node_features_p_node_xlate ::
  "bool \<Rightarrow> string option \<Rightarrow> string option \<Rightarrow> string option \<Rightarrow> error + string option" where
  "node_features_p_node_xlate have_pci new_features orig_features avail_features =
     (if new_features = None \<or> new_features = Some [] then Inr (xstrdup orig_features)
      else if orig_features = None \<or> orig_features = Some [] then Inr (xstrdup new_features)
      else
        (case orig_features of
           None \<Rightarrow> Inr (xstrdup new_features)
         | Some orig \<Rightarrow>
             let out_features = xstrdup new_features;
                 delim = (if out_features \<noteq> Some [] then '','' else [])
             in node_xlate_loop have_pci orig 0 out_features delim))"


section \<open>The cache size\<close>

text \<open>
  \<open>double\<close> values are modelled by rational numbers: the arithmetic is exact, and the
  rounding of binary floating point is not modelled.  The two agree wherever the value
  read and its products by 1024 are representable, as for every whole number of
  kilobytes below \<open>2 ^ 53\<close>.

  The conversion \<open>(unsigned int)\<close> truncates towards zero and is defined only when the
  truncated value fits.
\<close>

definition to_unsigned_int :: "rat \<Rightarrow> error + nat" where
  "to_unsigned_int v = (if v \<le> - 1 \<or> 2 ^ 32 \<le> v then Inl OutOfRange else Inr (nat \<lfloor>v\<rfloor>))"

text \<open>
  \<open>cpuinfo_parse_cache_size\<close>.  \<open>strtod\<close> of the C library is a parameter: it gives the
  value read and the number of characters consumed, which is 0 when there is no number.
  The first \<open>switch\<close> falls through from \<open>G\<close> to \<open>M\<close> to \<open>K\<close>, where the unit character is
  skipped; \<open>B\<close> divides and is not skipped.  The second \<open>switch\<close> accepts \<open>B\<close> or the end
  of the string.
\<close>

definition cpuinfo_parse_cache_size ::
  "(string \<Rightarrow> rat \<times> nat) \<Rightarrow> cpuinfo_features \<Rightarrow> string \<Rightarrow> error + bool \<times> cpuinfo_features" where
  "cpuinfo_parse_cache_size strtod cif txt =
     (let (numerical_val, consumed) = strtod txt;
          endp = drop consumed txt
      in if 0 < consumed then
           (let endp = dropWhile isspace endp;
                u = toupper (deref endp);
                numerical_val = (if u = CHR ''G'' then numerical_val * 1024 else numerical_val);
                numerical_val =
                  (if u = CHR ''G'' \<or> u = CHR ''M'' then numerical_val * 1024 else numerical_val);
                endp = (if u = CHR ''G'' \<or> u = CHR ''M'' \<or> u = CHR ''K'' then tl endp else endp);
                numerical_val =
                  (if u = CHR ''B'' then numerical_val / 1024 else numerical_val)
            in if toupper (deref endp) = CHR ''B'' \<or> toupper (deref endp) = NUL
               then (case to_unsigned_int numerical_val of
                       Inl e \<Rightarrow> Inl e
                     | Inr kb \<Rightarrow> Inr (True, cif\<lparr>cache_kb := kb\<rparr>))
               else Inr (False, cif))
         else Inr (False, cif))"

text \<open>
  A model of \<open>strtod\<close> for decimal numbers: white space, an optional sign, digits with an
  optional point.  Exponents, hexadecimal numbers, infinities and NaN are not
  modelled.
\<close>

definition digit_val :: "char \<Rightarrow> nat" where
  "digit_val c = length (takeWhile (\<lambda>d. d \<noteq> c) ''0123456789'')"

definition digits_val :: "string \<Rightarrow> nat" where
  "digits_val ds = foldl (\<lambda>a c. 10 * a + digit_val c) 0 ds"

definition strtod_decimal :: "string \<Rightarrow> rat \<times> nat" where
  "strtod_decimal s =
     (let ws = takeWhile isspace s;
          s1 = dropWhile isspace s;
          negative = (deref s1 = CHR ''-'');
          sign_len = (if deref s1 = CHR ''-'' \<or> deref s1 = CHR ''+'' then 1 else 0);
          s2 = drop sign_len s1;
          int_part = takeWhile isdigit s2;
          s3 = dropWhile isdigit s2;
          has_point = (deref s3 = CHR ''.'');
          frac_part = (if has_point then takeWhile isdigit (tl s3) else [])
      in if int_part = [] \<and> frac_part = [] then (0, 0)
         else
           (let v = of_nat (digits_val int_part) +
                    of_nat (digits_val frac_part) / 10 ^ length frac_part
            in (if negative then - v else v,
                length ws + sign_len + length int_part +
                  (if has_point then 1 + length frac_part else 0))))"

text \<open>
  The unit rule as the specification words it.  After the number and any white space:
  \<open>G\<close> scales by 1024 squared, \<open>M\<close> by 1024 and \<open>K\<close> by 1, and each must be followed by
  \<open>B\<close> or the end of the string; \<open>B\<close> alone divides by 1024; the end of the string leaves
  the number as it is; anything else fails.  Letters count in either case.
\<close>

definition unit_multiplier :: "char \<Rightarrow> rat option" where
  "unit_multiplier u =
     (if u = CHR ''G'' \<or> u = CHR ''g'' then Some (1024 * 1024)
      else if u = CHR ''M'' \<or> u = CHR ''m'' then Some 1024
      else if u = CHR ''K'' \<or> u = CHR ''k'' then Some 1
      else None)"

definition spec_scaled_kb :: "rat \<Rightarrow> string \<Rightarrow> rat option" where
  "spec_scaled_kb v unit_text =
     (case unit_text of
        [] \<Rightarrow> Some v
      | u # after \<Rightarrow>
          if u = CHR ''B'' \<or> u = CHR ''b'' then Some (v / 1024)
          else (case unit_multiplier u of
                  None \<Rightarrow> None
                | Some k \<Rightarrow>
                    if after = [] \<or> hd after = CHR ''B'' \<or> hd after = CHR ''b''
                    then Some (v * k) else None))"

section \<open>The model name\<close>

text \<open>
  The match that both branches of \<open>cpuinfo_parse_model_name\<close> attempt at \<open>s\<close>, once
  \<open>*s\<close> is known to be alphanumeric: step over that character, over letters and dashes,
  then demand a digit, and step over alphanumeric characters and dashes.  The result is
  the pointer \<open>e\<close> behind the match, or nothing when the digit is missing.
\<close>

definition match_core :: "string \<Rightarrow> string option" where
  "match_core s =
     (let e = tl s;
          e = dropWhile (\<lambda>c. isalpha c \<or> c = CHR ''-'') e
      in if isdigit (deref e)
         then (let e = tl e in Some (dropWhile (\<lambda>c. isalnum c \<or> c = CHR ''-'') e))
         else None)"

text \<open>The optional suffix: a blank, \<open>v\<close> and digits, tried only in the generic branch.\<close>

definition version_suffix :: "string \<Rightarrow> string" where
  "version_suffix e =
     (if deref e = CHR '' '' \<and> deref (tl e) = CHR ''v'' \<and> isdigit (deref (tl (tl e)))
      then dropWhile isdigit (tl (tl e))
      else e)"

text \<open>
  The characters from \<open>start\<close> up to \<open>e\<close> are copied and every blank in the copy becomes
  an underscore.
\<close>

definition copy_model :: "string \<Rightarrow> string \<Rightarrow> string" where
  "copy_model start e =
     map (\<lambda>c. if c = CHR '' '' then CHR ''_'' else c) (take (length start - length e) start)"

text \<open>
  The generic loop.  Its inner loop \<open>while ( ! isalnum(*s) ) s++\<close> does not test for the
  end of the string: NUL is not alphanumeric, so when no alphanumeric character is left
  the pointer steps behind the terminator, and the next read is outside the string.
  After a failed attempt the loop goes on one character behind the start of the attempt.
\<close>

function model_name_scan :: "string \<Rightarrow> error + string option" where
  "model_name_scan s =
     (if s = [] then Inr None
      else
        (case dropWhile (\<lambda>c. \<not> isalnum c) s of
           [] \<Rightarrow> Inl ReadPastEnd
         | c # cs \<Rightarrow>
             (case match_core (c # cs) of
                Some e \<Rightarrow> Inr (Some (copy_model (c # cs) (version_suffix e)))
              | None \<Rightarrow> model_name_scan cs)))"
  by pat_completeness auto
termination
proof (relation "measure length")
  show "wf (measure length)" by simp
next
  fix s :: string and c cs
  assume "dropWhile (\<lambda>c. \<not> isalnum c) s = c # cs"
  then have "length (c # cs) \<le> length s" by (metis length_dropWhile_le)
  then show "(cs, s) \<in> measure length" by simp
qed

declare model_name_scan.simps [simp del]

text \<open>
  \<open>cpuinfo_parse_model_name\<close>: look for \<open>Gold \<close>, then for \<open>EPYC \<close>; with such a lead-in
  the match is tried once, right behind it, and the copy starts at the lead-in.  Without
  a lead-in, and when that attempt fails, the generic loop scans the whole text.
\<close>

definition cpuinfo_parse_model_name ::
  "cpuinfo_features \<Rightarrow> string \<Rightarrow> error + bool \<times> cpuinfo_features" where
  "cpuinfo_parse_model_name cif txt =
     (let lead_in =
            (case strstr txt ''Gold '' of
               Some found \<Rightarrow> Some found
             | None \<Rightarrow> strstr txt ''EPYC '');
          anchored =
            (case lead_in of
               None \<Rightarrow> None
             | Some pre \<Rightarrow>
                 (let s = drop 5 pre in
                  if isalnum (deref s)
                  then (case match_core s of
                          None \<Rightarrow> None
                        | Some e \<Rightarrow> Some (copy_model pre e))
                  else None))
      in case anchored of
           Some name \<Rightarrow> Inr (True, cif\<lparr>model_name := Some name\<rparr>)
         | None \<Rightarrow>
             (case model_name_scan txt of
                Inl err \<Rightarrow> Inl err
              | Inr None \<Rightarrow> Inr (False, cif)
              | Inr (Some name) \<Rightarrow> Inr (True, cif\<lparr>model_name := Some name\<rparr>)))"

section \<open>The line reader\<close>

text \<open>
  A \<open>FILE\<close> opened for reading: the bytes that the coming reads will deliver, and whether
  the read after the last of them reports an error rather than the end of the file.
  \<open>fread\<close> delivers the next \<open>n\<close> bytes, fewer at the end; \<open>ferror\<close> is asked only after a
  read that delivered nothing.
\<close>

record stream =
  data :: string
  failing :: bool

definition fread :: "nat \<Rightarrow> stream \<Rightarrow> string \<times> stream" where
  "fread n st = (take n (data st), st\<lparr>data := drop n (data st)\<rparr>)"

definition ferror :: "stream \<Rightarrow> bool" where
  "ferror st = (data st = [] \<and> failing st)"

text \<open>
  \<open>line_reader_t\<close>.  \<open>line_buffer\<close> holds the bytes in use, so \<open>used\<close> is its length;
  \<open>chunk\<close> holds the bytes of the chunk buffer from \<open>buffer_ptr\<close> up to \<open>buffer_end\<close>, so
  \<open>buffer_ptr == buffer_end\<close> says that \<open>chunk\<close> is empty.
\<close>

record line_reader =
  stream :: stream
  err_code :: int
  line_buffer :: string
  capacity :: nat
  chunk_size :: nat
  chunk :: string

definition ENOMEM :: int where
  "ENOMEM = 12"

text \<open>
  \<open>line_reader_create\<close>.  The first argument is what \<open>fopen\<close> gives: a stream, or nothing
  when the file cannot be opened.  \<open>can_alloc\<close> says which requests \<open>malloc\<close> and \<open>realloc\<close>
  grant; 64 bytes is the size of the structure in front of the chunk buffer.
\<close>

definition line_reader_create ::
  "(nat \<Rightarrow> bool) \<Rightarrow> stream option \<Rightarrow> nat \<Rightarrow> line_reader option" where
  "line_reader_create can_alloc opened chunk_size_arg =
     (let chunk_size_arg = (if chunk_size_arg < 128 then 128 else chunk_size_arg) in
      case opened of
        None \<Rightarrow> None
      | Some st \<Rightarrow>
          if can_alloc (64 + chunk_size_arg)
          then Some \<lparr>stream = st, err_code = 0, line_buffer = [], capacity = 0,
                      chunk_size = chunk_size_arg, chunk = []\<rparr>
          else None)"

text \<open>
  The growth step both loops of \<open>line_reader_nextline\<close> share: a full buffer doubles,
  from 128 bytes on; the result is the new capacity, or nothing when \<open>realloc\<close> fails.
\<close>

definition grow :: "(nat \<Rightarrow> bool) \<Rightarrow> nat \<Rightarrow> nat \<Rightarrow> nat option" where
  "grow can_alloc used cap =
     (if used = cap
      then (let new_capacity = (if cap \<noteq> 0 then 2 * cap else 128) in
            if can_alloc new_capacity then Some new_capacity else None)
      else Some cap)"

text \<open>
  The inner loop: bytes move from the chunk to the line until a NUL or a newline has
  moved (\<open>Done\<close>), the chunk is empty (\<open>More\<close>) or the line cannot grow (\<open>NoMem\<close>).  The
  result carries what is left of the chunk, the line and its capacity.
\<close>

datatype fill = Done | More | NoMem

fun copy_chunk :: "(nat \<Rightarrow> bool) \<Rightarrow> string \<Rightarrow> string \<Rightarrow> nat \<Rightarrow> fill \<times> string \<times> string \<times> nat" where
  "copy_chunk can_alloc [] line cap = (More, [], line, cap)"
| "copy_chunk can_alloc (c # cs) line cap =
     (case grow can_alloc (length line) cap of
        None \<Rightarrow> (NoMem, c # cs, line, cap)
      | Some cap' \<Rightarrow>
          if c = NUL \<or> c = CHR 0x0A then (Done, cs, line @ [c], cap')
          else copy_chunk can_alloc cs (line @ [c]) cap')"

lemma copy_chunk_More: "copy_chunk can_alloc ch line cap = (More, rest, line', cap') \<Longrightarrow> rest = []"
  by (induction ch arbitrary: line cap) (auto split: option.splits if_splits)

text \<open>
  The outer loop.  After the inner loop the test \<open>buffer_ptr == buffer_end\<close> comes first:
  an empty chunk is refilled, and a read that delivers nothing ends the call with a null
  pointer, whether or not a line has just been completed.  Only with bytes left in the
  chunk does a completed line get its NUL and return.  \<open>is_done\<close> is a local of the loop
  body, so after a refill the copying goes on into the same line.
\<close>

function nextline_loop :: "(nat \<Rightarrow> bool) \<Rightarrow> line_reader \<Rightarrow> bool \<times> line_reader" where
  "nextline_loop can_alloc this =
     (case copy_chunk can_alloc (chunk this) (line_buffer this) (capacity this) of
        (is_done, rest, line, cap) \<Rightarrow>
          (let this = this\<lparr>chunk := rest, line_buffer := line, capacity := cap\<rparr> in
           if is_done = NoMem then (False, this\<lparr>err_code := ENOMEM\<rparr>)
           else if rest = [] then
             (case fread (chunk_size this) (stream this) of
                (bytes, st) \<Rightarrow>
                  if bytes = []
                  then (False, this\<lparr>stream := st, err_code := (if ferror st then - 1 else 0)\<rparr>)
                  else nextline_loop can_alloc (this\<lparr>stream := st, chunk := bytes\<rparr>))
           else if is_done = Done then
             (case grow can_alloc (length line) cap of
                None \<Rightarrow> (False, this\<lparr>err_code := ENOMEM\<rparr>)
              | Some cap' \<Rightarrow> (True, this\<lparr>capacity := cap', line_buffer := line @ [NUL]\<rparr>))
           else nextline_loop can_alloc this))"
  by pat_completeness auto
termination
  apply (relation "measure (\<lambda>(can_alloc, this). length (data (stream this)))")
    apply simp
  subgoal for can_alloc this x y xa ya xb yb xc xd yc
    by (cases "chunk_size this"; cases "data (stream this)") (auto simp: fread_def)
  subgoal for can_alloc this x y xa ya xb yb xc
    using copy_chunk_More[of can_alloc "chunk this" "line_buffer this" "capacity this" xa xb yb]
    by (cases x) auto
  done

declare nextline_loop.simps [simp del]

text \<open>\<open>line_reader_nextline\<close> empties the line buffer and runs the loop.\<close>

definition line_reader_nextline :: "(nat \<Rightarrow> bool) \<Rightarrow> line_reader \<Rightarrow> bool \<times> line_reader" where
  "line_reader_nextline can_alloc this = nextline_loop can_alloc (this\<lparr>line_buffer := []\<rparr>)"

text \<open>
  What a call of the loop that returns a line has done: it has moved a non-empty run of
  bytes that ends in a NUL or a newline from the pending input to the line, and bytes
  are left in the chunk.
\<close>

lemma copy_chunk_consumed:
  "copy_chunk can_alloc ch line cap = (st, rest, line', cap') \<Longrightarrow>
     \<exists>consumed. ch = consumed @ rest \<and> line' = line @ consumed \<and>
       (st = Done \<longrightarrow> consumed \<noteq> [] \<and> (last consumed = NUL \<or> last consumed = CHR 0x0A)) \<and>
       (st = More \<longrightarrow> rest = []) \<and>
       (st = NoMem \<longrightarrow> \<not> (\<forall>n. can_alloc n))"
proof (induction ch arbitrary: line cap)
  case Nil
  then show ?case by auto
next
  case (Cons c cs)
  show ?case
  proof (cases "grow can_alloc (length line) cap")
    case None
    then have "\<not> (\<forall>n. can_alloc n)" by (auto simp: grow_def Let_def split: if_splits)
    with None Cons.prems show ?thesis by auto
  next
    case (Some cap1)
    show ?thesis
    proof (cases "c = NUL \<or> c = CHR 0x0A")
      case True
      with Some Cons.prems have "st = Done" "rest = cs" "line' = line @ [c]" by auto
      with True show ?thesis by (intro exI[of _ "[c]"]) auto
    next
      case False
      with Some Cons.prems have "copy_chunk can_alloc cs (line @ [c]) cap1 = (st, rest, line', cap')"
        by simp
      from Cons.IH[OF this] obtain consumed where
        c: "cs = consumed @ rest" "line' = (line @ [c]) @ consumed"
        "st = Done \<longrightarrow> consumed \<noteq> [] \<and> (last consumed = NUL \<or> last consumed = CHR 0x0A)"
        "st = More \<longrightarrow> rest = []" "st = NoMem \<longrightarrow> \<not> (\<forall>n. can_alloc n)" by blast
      then show ?thesis by (intro exI[of _ "c # consumed"]) auto
    qed
  qed
qed

lemma nextline_loop_True:
  "nextline_loop can_alloc this = (True, this') \<Longrightarrow>
     \<exists>consumed. consumed \<noteq> [] \<and> (last consumed = NUL \<or> last consumed = CHR 0x0A) \<and>
       line_buffer this' = line_buffer this @ consumed @ [NUL] \<and>
       chunk this @ data (stream this) = consumed @ chunk this' @ data (stream this') \<and>
       chunk this' \<noteq> [] \<and>
       failing (stream this') = failing (stream this) \<and>
       chunk_size this' = chunk_size this \<and> err_code this' = err_code this"
proof (induction can_alloc this rule: nextline_loop.induct)
  case (1 can_alloc this)
  obtain st rest line cap where cc:
    "copy_chunk can_alloc (chunk this) (line_buffer this) (capacity this) = (st, rest, line, cap)"
    by (metis prod_cases4)
  from copy_chunk_consumed[OF cc] obtain consumed where
    c: "chunk this = consumed @ rest" "line = line_buffer this @ consumed"
    "st = Done \<longrightarrow> consumed \<noteq> [] \<and> (last consumed = NUL \<or> last consumed = CHR 0x0A)"
    "st = More \<longrightarrow> rest = []" by blast
  define this1 where "this1 = this\<lparr>chunk := rest, line_buffer := line, capacity := cap\<rparr>"
  show ?case
  proof (cases "st = NoMem")
    case True
    with 1(3) cc show ?thesis by (subst (asm) nextline_loop.simps) simp
  next
    case nm: False
    show ?thesis
    proof (cases "rest = []")
      case True
      obtain bytes st' where fr: "fread (chunk_size this1) (stream this1) = (bytes, st')"
        by (cases "fread (chunk_size this1) (stream this1)") auto
      show ?thesis
      proof (cases "bytes = []")
        case True
        with 1(3) cc nm \<open>rest = []\<close> fr show ?thesis
          by (subst (asm) nextline_loop.simps) (simp add: this1_def)
      next
        case False
        define this2 where "this2 = this1\<lparr>stream := st', chunk := bytes\<rparr>"
        have rec: "nextline_loop can_alloc this2 = (True, this')"
          using 1(3) cc nm \<open>rest = []\<close> fr False
          by (subst (asm) nextline_loop.simps) (simp add: this1_def this2_def)
        have ih: "\<exists>consumed. consumed \<noteq> [] \<and> (last consumed = NUL \<or> last consumed = CHR 0x0A) \<and>
           line_buffer this' = line_buffer this2 @ consumed @ [NUL] \<and>
           chunk this2 @ data (stream this2) = consumed @ chunk this' @ data (stream this') \<and>
           chunk this' \<noteq> [] \<and>
           failing (stream this') = failing (stream this2) \<and>
           chunk_size this' = chunk_size this2 \<and> err_code this' = err_code this2"
          using 1(1)[OF cc[symmetric] refl refl this1_def nm \<open>rest = []\<close> fr[symmetric] False]
            rec unfolding this2_def by blast
        then obtain consumed2 where
          d: "consumed2 \<noteq> []" "last consumed2 = NUL \<or> last consumed2 = CHR 0x0A"
          "line_buffer this' = line_buffer this2 @ consumed2 @ [NUL]"
          "chunk this2 @ data (stream this2) = consumed2 @ chunk this' @ data (stream this')"
          "chunk this' \<noteq> []"
          "failing (stream this') = failing (stream this2)"
          "chunk_size this' = chunk_size this2" "err_code this' = err_code this2" by blast
        have s2: "chunk this2 @ data (stream this2) = data (stream this)"
          using fr by (auto simp: this2_def this1_def fread_def)
        have f2: "failing (stream this2) = failing (stream this)"
          "chunk_size this2 = chunk_size this" "err_code this2 = err_code this"
          "line_buffer this2 = line_buffer this @ consumed"
          using fr c by (auto simp: this2_def this1_def fread_def)
        show ?thesis
          using d c \<open>rest = []\<close> s2 f2
          by (intro exI[of _ "consumed @ consumed2"]) auto
      qed
    next
      case ne: False
      then have dn: "st = Done" using nm c(4) by (cases st) auto
      obtain cap1 where g: "grow can_alloc (length line) cap = Some cap1"
        and t: "this' = this1\<lparr>capacity := cap1, line_buffer := line @ [NUL]\<rparr>"
        using 1(3) cc nm ne dn
        by (subst (asm) nextline_loop.simps) (auto simp: this1_def Let_def split: option.splits)
      show ?thesis
        using t c dn ne by (intro exI[of _ consumed]) (auto simp: this1_def)
    qed
  qed
qed

lemma line_reader_nextline_consumes:
  assumes "line_reader_nextline can_alloc this = (True, this')"
  shows "length (chunk this') + length (data (stream this')) <
         length (chunk this) + length (data (stream this))"
proof -
  from assms have "nextline_loop can_alloc (this\<lparr>line_buffer := []\<rparr>) = (True, this')"
    by (simp add: line_reader_nextline_def)
  from nextline_loop_True[OF this] obtain consumed where
    "consumed \<noteq> []"
    "chunk this @ data (stream this) = consumed @ chunk this' @ data (stream this')" by auto
  then have "length (chunk this @ data (stream this)) =
      length consumed + length (chunk this' @ data (stream this'))" and "0 < length consumed"
    by (metis length_append, simp)
  then show ?thesis by simp
qed

lemma line_reader_nextline_measure:
  "(True, this') = line_reader_nextline can_alloc this \<Longrightarrow>
     length (chunk this') + length (data (stream this')) <
     length (chunk this) + length (data (stream this))"
  using line_reader_nextline_consumes[of can_alloc this this'] by simp

text \<open>
  \<open>line_reader_trim\<close>: the white space before the final NUL is cut off, the NUL moving
  left over it, and then the white space at the start, the rest moving to the front.
\<close>

definition trim_bytes :: "string \<Rightarrow> string" where
  "trim_bytes line0 =
     (let line = line0;
          body = butlast line;
          kept = rev (dropWhile isspace (rev body));
          line = (if length kept < length body then kept @ [NUL] else line)
      in dropWhile isspace line)"

definition line_reader_trim :: "line_reader \<Rightarrow> line_reader" where
  "line_reader_trim this =
     (if line_buffer this \<noteq> []
      then this\<lparr>line_buffer := trim_bytes (line_buffer this)\<rparr>
      else this)"

lemma line_reader_trim_input:
  "chunk (line_reader_trim this) = chunk this"
  "stream (line_reader_trim this) = stream this"
  by (simp_all add: line_reader_trim_def Let_def)

text \<open>
  The sequence of lines a reader yields: the contents of the line buffer after each
  call of \<open>line_reader_nextline\<close> that returns it, up to the first call that returns the
  null pointer, and the reader as that call leaves it.
\<close>

function line_reader_lines :: "(nat \<Rightarrow> bool) \<Rightarrow> line_reader \<Rightarrow> string list \<times> line_reader" where
  "line_reader_lines can_alloc this =
     (case line_reader_nextline can_alloc this of
        (got, this') \<Rightarrow>
          if got
          then (case line_reader_lines can_alloc this' of
                  (ls, final) \<Rightarrow> (line_buffer this' # ls, final))
          else ([], this'))"
  by pat_completeness auto
termination
  apply (relation "measure (\<lambda>(can_alloc, this). length (chunk this) + length (data (stream this)))")
   apply simp
  apply (auto dest!: line_reader_nextline_measure)
  done

declare line_reader_lines.simps [simp del]

section \<open>Parsing the lines of the file\<close>

text \<open>
  The registry \<open>cpuinfo_feature_parsers\<close>: a keyword and its callback.  The only use of
  \<open>arg_offset\<close> is to make \<open>cpuinfo_parse_strdup\<close> store into \<open>vendor_id\<close>.
\<close>

datatype parse_cb = Parse_cache_size | Parse_flags | Parse_model_name | Parse_strdup_vendor_id

definition cpuinfo_feature_parsers :: "(string \<times> parse_cb) list" where
  "cpuinfo_feature_parsers =
     [(''cache size'', Parse_cache_size), (''flags'', Parse_flags),
      (''model name'', Parse_model_name), (''vendor_id'', Parse_strdup_vendor_id)]"

text \<open>
  \<open>cpuinfo_feature_parsers_lookup\<close>: the first entry of the same length that agrees with
  the keyword when case is ignored (\<open>strncasecmp\<close>).
\<close>

fun parsers_lookup_from :: "(string \<times> parse_cb) list \<Rightarrow> string \<Rightarrow> parse_cb option" where
  "parsers_lookup_from [] feature_str = None"
| "parsers_lookup_from ((name, cb) # parsers) feature_str =
     (if length name = length feature_str \<and> map tolower name = map tolower feature_str
      then Some cb
      else parsers_lookup_from parsers feature_str)"

definition cpuinfo_feature_parsers_lookup :: "string \<Rightarrow> parse_cb option" where
  "cpuinfo_feature_parsers_lookup feature_str = parsers_lookup_from cpuinfo_feature_parsers feature_str"

definition cpuinfo_parse_strdup :: "cpuinfo_features \<Rightarrow> string \<Rightarrow> error + bool \<times> cpuinfo_features" where
  "cpuinfo_parse_strdup cif txt = Inr (True, cif\<lparr>vendor_id := Some txt\<rparr>)"

text \<open>
  \<open>cpuinfo_parse_line\<close>: skip white space; the keyword runs up to the colon, less the
  white space before the colon; the value starts behind the colon and the white space
  after it.  A line that is empty, has no colon or has an unknown keyword gives false.
\<close>

definition cpuinfo_parse_line ::
  "(string \<Rightarrow> rat \<times> nat) \<Rightarrow> cpuinfo_features \<Rightarrow> string \<Rightarrow> error + bool \<times> cpuinfo_features" where
  "cpuinfo_parse_line strtod cif line0 =
     (let line = dropWhile isspace line0 in
      if line = [] then Inr (False, cif)
      else
        (let feature_start = line;
             line = dropWhile (\<lambda>c. c \<noteq> CHR '':'') line
         in if deref line \<noteq> CHR '':'' then Inr (False, cif)
            else
              (let feature =
                     rev (dropWhile isspace (rev (take (length feature_start - length line) feature_start)))
               in case cpuinfo_feature_parsers_lookup feature of
                    None \<Rightarrow> Inr (False, cif)
                  | Some parser \<Rightarrow>
                      (let line = tl line;
                           line = dropWhile isspace line
                       in case parser of
                            Parse_cache_size \<Rightarrow> cpuinfo_parse_cache_size strtod cif line
                          | Parse_flags \<Rightarrow> cpuinfo_parse_flags cif line
                          | Parse_model_name \<Rightarrow> cpuinfo_parse_model_name cif line
                          | Parse_strdup_vendor_id \<Rightarrow> cpuinfo_parse_strdup cif line))))"

text \<open>
  The loop of \<open>cpuinfo_parse_file\<close>: each line is trimmed; an empty line ends the loop;
  what \<open>cpuinfo_parse_line\<close> returns is dropped, only the record it filled is kept.  The
  loop also ends when \<open>line_reader_nextline\<close> returns the null pointer, and the error
  code of the reader is not looked at.
\<close>

function parse_file_loop ::
  "(string \<Rightarrow> rat \<times> nat) \<Rightarrow> (nat \<Rightarrow> bool) \<Rightarrow> cpuinfo_features \<Rightarrow> line_reader \<Rightarrow>
     error + cpuinfo_features \<times> line_reader" where
  "parse_file_loop strtod can_alloc cif lr =
     (case line_reader_nextline can_alloc lr of
        (got, lr') \<Rightarrow>
          if got
          then (let lr'' = line_reader_trim lr';
                    line = cstr_at (line_buffer lr'') 0
                in if line = [] then Inr (cif, lr'')
                   else (case cpuinfo_parse_line strtod cif line of
                           Inl e \<Rightarrow> Inl e
                         | Inr (ok, cif') \<Rightarrow> parse_file_loop strtod can_alloc cif' lr''))
          else Inr (cif, lr'))"
  by pat_completeness auto
termination
  apply (relation "measure (\<lambda>(strtod, can_alloc, cif, lr). length (chunk lr) + length (data (stream lr)))")
   apply simp
  apply (auto dest!: line_reader_nextline_measure simp: line_reader_trim_input)
  done

declare parse_file_loop.simps [simp del]

text \<open>
  \<open>cpuinfo_parse_file\<close>: false when the reader cannot be created, true in every other
  case.  The argument \<open>opened\<close> is what \<open>fopen\<close> gives for the file name.
\<close>

definition cpuinfo_parse_file ::
  "(string \<Rightarrow> rat \<times> nat) \<Rightarrow> (nat \<Rightarrow> bool) \<Rightarrow> cpuinfo_features \<Rightarrow> stream option \<Rightarrow>
     error + bool \<times> cpuinfo_features" where
  "cpuinfo_parse_file strtod can_alloc cif opened =
     (case line_reader_create can_alloc opened 0 of
        None \<Rightarrow> Inr (False, cif)
      | Some line_reader \<Rightarrow>
          (case parse_file_loop strtod can_alloc cif line_reader of
             Inl e \<Rightarrow> Inl e
           | Inr (cif', line_reader') \<Rightarrow> Inr (True, cif')))"

text \<open>
  The lines a file yields when it is read with a given chunk size, and the loop of
  \<open>cpuinfo_parse_file\<close> read as a fold over yielded lines; the second is a proof device.
\<close>

definition yielded_lines :: "(nat \<Rightarrow> bool) \<Rightarrow> stream option \<Rightarrow> nat \<Rightarrow> string list option" where
  "yielded_lines can_alloc opened chunk_size_arg =
     (case line_reader_create can_alloc opened chunk_size_arg of
        None \<Rightarrow> None
      | Some this \<Rightarrow> Some (fst (line_reader_lines can_alloc this)))"

fun parse_lines ::
  "(string \<Rightarrow> rat \<times> nat) \<Rightarrow> cpuinfo_features \<Rightarrow> string list \<Rightarrow> error + cpuinfo_features" where
  "parse_lines strtod cif [] = Inr cif"
| "parse_lines strtod cif (l # ls) =
     (let line = cstr_at (trim_bytes l) 0
      in if line = [] then Inr cif
         else (case cpuinfo_parse_line strtod cif line of
                 Inl e \<Rightarrow> Inl e
               | Inr (ok, cif') \<Rightarrow> parse_lines strtod cif' ls))"

section \<open>Facts about \<open>strstr\<close> and \<open>__contains_str\<close>\<close>


lemma strstr_Some:
  "strstr h n = Some f \<Longrightarrow>
     \<exists>pre rest. h = pre @ n @ rest \<and> f = n @ rest \<and>
        (\<forall>pre' post'. h = pre' @ n @ post' \<longrightarrow> length pre \<le> length pre')"
proof (induction h)
  case Nil
  then show ?case by (auto split: if_splits)
next
  case (Cons c cs)
  show ?case
  proof (cases "prefix n (c # cs)")
    case True
    with Cons.prems have f: "f = c # cs" by simp
    from True obtain rest where "c # cs = n @ rest" by (auto simp: prefix_def)
    with f have "c # cs = [] @ n @ rest \<and> f = n @ rest" by simp
    then show ?thesis by (metis length_0_conv le0 list.size(3))
  next
    case False
    with Cons.prems have "strstr cs n = Some f" by simp
    from Cons.IH[OF this] obtain pre rest where
      h: "cs = pre @ n @ rest" "f = n @ rest"
      and m: "\<forall>pre' post'. cs = pre' @ n @ post' \<longrightarrow> length pre \<le> length pre'" by blast
    have "\<forall>pre' post'. c # cs = pre' @ n @ post' \<longrightarrow> length (c # pre) \<le> length pre'"
    proof (intro allI impI)
      fix pre' post' assume e: "c # cs = pre' @ n @ post'"
      show "length (c # pre) \<le> length pre'"
      proof (cases pre')
        case Nil
        with e have "prefix n (c # cs)" by (simp add: prefix_def)
        with False show ?thesis by simp
      next
        case (Cons a p')
        with e have "cs = p' @ n @ post'" by simp
        with m have "length pre \<le> length p'" by blast
        with Cons show ?thesis by simp
      qed
    qed
    moreover from h have "c # cs = (c # pre) @ n @ rest" by simp
    ultimately show ?thesis using h(2) by blast
  qed
qed

lemma deref_trailed: "(deref r = NUL \<or> deref r \<in> set d) \<longleftrightarrow> (r = [] \<or> hd r = NUL \<or> hd r \<in> set d)"
  by (cases r) (auto simp: deref_def)



section \<open>The bitmap computed by \<open>cpuinfo_parse_flags\<close>\<close>









section \<open>The rendered feature list\<close>

lemma and_pow2_eq_iff:
  assumes "i < 32"
  shows "(fl AND 2 ^ i = (2 ^ i :: 32 word)) \<longleftrightarrow> bit fl i"
proof
  assume "fl AND 2 ^ i = 2 ^ i"
  then have "bit (fl AND 2 ^ i) i = bit (2 ^ i :: 32 word) i" by simp
  then show "bit fl i" using assms by (simp add: bit_simps)
next
  assume "bit fl i"
  then show "fl AND 2 ^ i = 2 ^ i"
    by (intro bit_eqI) (auto simp: bit_simps)
qed

lemma cat_items_Some: "cat_items (Some s) '','' xs = Some (s @ concat (map (\<lambda>y. '','' @ y) xs))"
  by (induction xs arbitrary: s) (auto simp: xstrfmtcat_def)

lemma append_single_fun: "(@) [c] = (#) c"
  by (rule ext) simp

lemma cat_items_None: "cat_items None [] xs = join_opt '','' xs"
  by (cases xs) (auto simp: xstrfmtcat_def join_opt_def join_with_def cat_items_Some append_single_fun)

lemma node_state_isa_loop_items:
  assumes "i \<le> cpuinfo_flags_MAX"
  shows "node_state_isa_loop fl i (2 ^ i) out delim =
     cat_items out delim
       (map (\<lambda>i. ''ISA::'' @ cpuinfo_flags_strings ! i) (filter (bit fl) [i..<cpuinfo_flags_MAX]))"
  using assms
proof (induction "cpuinfo_flags_MAX - i" arbitrary: i out delim)
  case 0
  then show ?case by (subst node_state_isa_loop.simps) simp
next
  case (Suc k)
  then have lt: "i < cpuinfo_flags_MAX" by simp
  then have i32: "i < 32" by (simp add: cpuinfo_flags_MAX_def)
  have k: "k = cpuinfo_flags_MAX - Suc i" using Suc.hyps(2) by simp
  have le: "Suc i \<le> cpuinfo_flags_MAX" using lt by simp
  note ih = Suc.hyps(1)[OF k le]
  have upt: "[i..<cpuinfo_flags_MAX] = i # [Suc i..<cpuinfo_flags_MAX]"
    using lt by (simp add: upt_conv_Cons)
  show ?case
    using lt ih and_pow2_eq_iff[OF i32, of fl]
    by (subst node_state_isa_loop.simps) (simp add: upt push_bit_eq_mult mult.commute)
qed

lemma cat_text_Cons: "cat_text out '','' xs = out @ concat (map (\<lambda>y. '','' @ y) xs)"
  by (induction xs arbitrary: out) auto

lemma cat_text_empty: "cat_text [] [] xs = join_with '','' xs"
  by (cases xs) (auto simp: join_with_def cat_text_Cons append_single_fun)

lemma summarize_isa_loop_items:
  assumes "i \<le> cpuinfo_flags_MAX"
  shows "summarize_isa_loop fl i (2 ^ i) out delim =
     cat_text out delim
       (map (\<lambda>i. ''ISA::'' @ cpuinfo_flags_strings ! i) (filter (bit fl) [i..<cpuinfo_flags_MAX]))"
  using assms
proof (induction "cpuinfo_flags_MAX - i" arbitrary: i out delim)
  case 0
  then show ?case by (subst summarize_isa_loop.simps) simp
next
  case (Suc k)
  then have lt: "i < cpuinfo_flags_MAX" by simp
  then have i32: "i < 32" by (simp add: cpuinfo_flags_MAX_def)
  have k: "k = cpuinfo_flags_MAX - Suc i" using Suc.hyps(2) by simp
  have le: "Suc i \<le> cpuinfo_flags_MAX" using lt by simp
  note ih = Suc.hyps(1)[OF k le]
  have upt: "[i..<cpuinfo_flags_MAX] = i # [Suc i..<cpuinfo_flags_MAX]"
    using lt by (simp add: upt_conv_Cons)
  show ?case
    using lt ih and_pow2_eq_iff[OF i32, of fl]
    by (subst summarize_isa_loop.simps) (simp add: upt push_bit_eq_mult mult.commute)
qed

lemma node_state_add_features_cat:
  "node_state_add_features pci cif =
     cat_items pci (case pci of None \<Rightarrow> [] | Some s \<Rightarrow> if s \<noteq> [] then '','' else [])
       (render_items (model_name cif \<noteq> None) cif)"
  using node_state_isa_loop_items[of 0 "flags cif"]
  by (cases "vendor_id cif"; cases "model_name cif")
     (simp_all add: node_state_add_features_def render_items_def isa_items_def)

lemma cpuinfo_features_summarize_cat:
  "cpuinfo_features_summarize cif =
     cat_text [] [] (render_items (cache_kb cif \<noteq> 0) cif) @ [CHR 0x0A]"
  using summarize_isa_loop_items[of 0 "flags cif"]
  by (cases "vendor_id cif"; cases "model_name cif")
     (simp_all add: cpuinfo_features_summarize_def render_items_def isa_items_def)

lemma cat_items_pci:
  "cat_items pci (case pci of None \<Rightarrow> [] | Some s \<Rightarrow> if s \<noteq> [] then '','' else []) items =
     (if items = [] then pci
      else Some (join_with '',''
             ((case pci of None \<Rightarrow> [] | Some p \<Rightarrow> if p = [] then [] else [p]) @ items)))"
proof (cases pci)
  case None
  then show ?thesis using cat_items_None[of items] by (simp add: join_opt_def)
next
  case (Some p)
  show ?thesis
  proof (cases "p = []")
    case True
    then show ?thesis using Some
      by (cases items) (auto simp: xstrfmtcat_def cat_items_Some join_with_def append_single_fun)
  next
    case False
    then show ?thesis using Some
      by (cases items) (auto simp: xstrfmtcat_def cat_items_Some join_with_def append_single_fun)
  qed
qed

text \<open>
  C7 (as amended).  The block of \<open>node_features_p_node_state\<close> renders, behind any PCI
  features, the items VENDOR (if present), MODEL (if present), CACHE (exactly when the
  model name is present, whatever the cache size), then the ISA flags in the order of
  the enumeration, joined by commas, and leaves the pointer as it was when there is no
  item.  \<open>cpuinfo_features_summarize\<close> prints the items in the same order but prints
  CACHE exactly when the cache size is not zero, whatever the model name.
\<close>

theorem render_order_and_cache_gate:
  "node_state_add_features pci cif =
     (let items = render_items (model_name cif \<noteq> None) cif in
      if items = [] then pci
      else Some (join_with '',''
             ((case pci of None \<Rightarrow> [] | Some p \<Rightarrow> if p = [] then [] else [p]) @ items))) \<and>
   cpuinfo_features_summarize cif =
     join_with '','' (render_items (cache_kb cif \<noteq> 0) cif) @ [CHR 0x0A]"
  by (simp add: node_state_add_features_cat cat_items_pci cpuinfo_features_summarize_cat
      cat_text_empty Let_def)

text \<open>
  C7 as stated fails for \<open>cpuinfo_features_summarize\<close>: a record with a cache size and
  no model name prints a CACHE item (and \<open>node_features_p_node_state\<close> emits nothing
  for the same record).
\<close>

theorem summarize_cache_without_model_counterexample:
  "model_name (cpuinfo_features_init\<lparr>cache_kb := 512\<rparr>) = None \<and>
   cpuinfo_features_summarize (cpuinfo_features_init\<lparr>cache_kb := 512\<rparr>) =
     ''CACHE::512KB'' @ [CHR 0x0A] \<and>
   node_state_add_features None (cpuinfo_features_init\<lparr>cache_kb := 512\<rparr>) = None"
  by code_simp

section \<open>Tokens and \<open>strtok_r\<close>\<close>

lemma split_on_takeWhile:
  "split_on D xs = takeWhile (\<lambda>c. \<not> D c) xs #
     (case dropWhile (\<lambda>c. \<not> D c) xs of [] \<Rightarrow> [] | c # r \<Rightarrow> split_on D r)"
  by (induction xs) (auto split: list.splits)

lemma spec_tokens_sep: "D c \<Longrightarrow> spec_tokens D (c # cs) = spec_tokens D cs"
  by (simp add: spec_tokens_def)

lemma spec_tokens_dropWhile: "spec_tokens D (dropWhile D xs) = spec_tokens D xs"
  by (induction xs) (auto simp: spec_tokens_sep)

lemma spec_tokens_Nil: "spec_tokens D [] = []"
  by (simp add: spec_tokens_def)

lemma spec_tokens_step:
  "spec_tokens D xs =
     (if dropWhile D xs = [] then []
      else takeWhile (\<lambda>c. \<not> D c) (dropWhile D xs) #
           spec_tokens D (drop 1 (dropWhile (\<lambda>c. \<not> D c) (dropWhile D xs))))"
proof (cases "dropWhile D xs")
  case Nil
  have "spec_tokens D xs = spec_tokens D (dropWhile D xs)"
    by (rule spec_tokens_dropWhile[symmetric])
  also have "\<dots> = []" by (simp only: Nil spec_tokens_Nil)
  finally show ?thesis using Nil by simp
next
  case (Cons y ys)
  then have ny: "\<not> D y" by (metis hd_dropWhile list.sel(1) list.distinct(1))
  define dw where "dw = dropWhile (\<lambda>c. \<not> D c) ys"
  have s: "split_on D (y # ys) =
     (y # takeWhile (\<lambda>c. \<not> D c) ys) # (case dw of [] \<Rightarrow> [] | c # r \<Rightarrow> split_on D r)"
    using ny by (subst split_on_takeWhile) (simp add: dw_def)
  have "spec_tokens D (y # ys) =
     takeWhile (\<lambda>c. \<not> D c) (y # ys) # spec_tokens D (drop 1 (dropWhile (\<lambda>c. \<not> D c) (y # ys)))"
    unfolding spec_tokens_def s using ny
    by (cases dw) (simp_all add: dw_def[symmetric])
  then show ?thesis using Cons spec_tokens_dropWhile[of D xs] by simp
qed

lemma takeWhile_all: "\<forall>c \<in> set xs. P c \<Longrightarrow> takeWhile P xs = xs"
  by (induction xs) auto

lemma cstr_at_nul_free: "NUL \<notin> set (drop pos buf) \<Longrightarrow> cstr_at buf pos = drop pos buf"
  unfolding cstr_at_def by (rule takeWhile_all) auto

lemma strtok_r_step:
  fixes delim :: string and buf :: string and pos :: nat and D :: "char \<Rightarrow> bool"
  defines "r1 \<equiv> dropWhile D (drop pos buf)"
  assumes nul: "NUL \<notin> set (drop pos buf)" and D_def: "D = (\<lambda>c. c \<in> set delim)"
  shows "r1 = [] \<Longrightarrow> strtok_r buf pos delim = None"
    and "r1 \<noteq> [] \<Longrightarrow> \<exists>t buf' save'. strtok_r buf pos delim = Some (t, buf', save') \<and>
           cstr_at buf' t = takeWhile (\<lambda>c. \<not> D c) r1 \<and>
           drop save' buf' = drop 1 (dropWhile (\<lambda>c. \<not> D c) r1) \<and>
           (length buf \<le> t + length (takeWhile (\<lambda>c. \<not> D c) r1) \<longrightarrow> buf' = buf)"
proof -
  define k where "k = length (takeWhile D (drop pos buf))"
  define start where "start = pos + k"
  have c0: "cstr_at buf pos = drop pos buf" using nul by (rule cstr_at_nul_free)
  have kk: "k = length (takeWhile (\<lambda>c. c \<in> set delim) (cstr_at buf pos))"
    by (simp add: k_def c0 D_def)
  have ds: "drop start buf = r1"
    by (simp add: start_def k_def r1_def dropWhile_eq_drop add.commute)
  have "set r1 \<subseteq> set (drop pos buf)" unfolding r1_def by (metis set_dropWhileD subsetI)
  then have nul1: "NUL \<notin> set r1" using nul by blast
  have c1: "cstr_at buf start = r1" using nul1 ds cstr_at_nul_free[of start buf] by simp
  { assume "r1 = []"
    then show "strtok_r buf pos delim = None"
      using c1 by (simp add: strtok_r_def Let_def kk[symmetric] start_def[symmetric]) }
  { assume ne: "r1 \<noteq> []"
    define tok where "tok = takeWhile (\<lambda>c. \<not> D c) r1"
    define tail where "tail = dropWhile (\<lambda>c. \<not> D c) r1"
    have r1: "r1 = tok @ tail" by (simp add: tok_def tail_def)
    have lt: "start < length buf" using ds ne by (metis drop_all not_le)
    have len: "length buf = start + length tok + length tail"
      using ds r1 lt by (metis add.assoc length_append length_drop le_add_diff_inverse less_imp_le)
    have te: "start + length (takeWhile (\<lambda>c. c \<notin> set delim) (cstr_at buf start)) = start + length tok"
      by (simp add: c1 tok_def D_def)
    have nultok: "NUL \<notin> set tok" using nul1 r1 by auto
    show "\<exists>t buf' save'. strtok_r buf pos delim = Some (t, buf', save') \<and>
           cstr_at buf' t = takeWhile (\<lambda>c. \<not> D c) r1 \<and>
           drop save' buf' = drop 1 (dropWhile (\<lambda>c. \<not> D c) r1) \<and>
           (length buf \<le> t + length (takeWhile (\<lambda>c. \<not> D c) r1) \<longrightarrow> buf' = buf)"
    proof (cases tail)
      case Nil
      then have e: "length buf \<le> start + length tok" using len by simp
      have "strtok_r buf pos delim = Some (start, buf, start + length tok)"
        using ne c1 e te
        by (simp add: strtok_r_def Let_def kk[symmetric] start_def[symmetric])
      moreover have "cstr_at buf start = tok" using c1 r1 Nil by simp
      moreover have "drop (start + length tok) buf = drop 1 tail" using Nil e by simp
      ultimately show ?thesis unfolding tok_def tail_def by blast
    next
      case (Cons c r)
      then have e: "\<not> length buf \<le> start + length tok" using len by simp
      have "buf ! (start + length tok) = drop start buf ! length tok"
        using e by simp
      also have "\<dots> = c" by (simp add: ds r1 Cons)
      finally have bc: "buf ! (start + length tok) = c" .
      have "c \<in> set r1" using r1 Cons by simp
      then have cn: "c \<noteq> NUL" using nul1 by metis
      have st: "strtok_r buf pos delim =
          Some (start, buf[start + length tok := NUL], start + length tok + 1)"
        using ne c1 e te bc cn
        by (simp add: strtok_r_def Let_def kk[symmetric] start_def[symmetric])
      have "drop start (buf[start + length tok := NUL]) = (drop start buf)[length tok := NUL]"
        by (simp add: drop_update_swap)
      also have "\<dots> = tok @ NUL # r" by (simp add: ds r1 Cons list_update_append)
      finally have du: "drop start (buf[start + length tok := NUL]) = tok @ NUL # r" .
      have "takeWhile (\<lambda>c. c \<noteq> NUL) (tok @ NUL # r) = tok"
        using nultok by (induction tok) auto
      then have "cstr_at (buf[start + length tok := NUL]) start = tok"
        by (simp add: cstr_at_def du)
      moreover have "drop (start + length tok + 1) (buf[start + length tok := NUL]) = drop 1 tail"
      proof -
        have "drop (start + length tok + 1) (buf[start + length tok := NUL])
            = drop (start + length tok + 1) buf" by simp
        also have "\<dots> = drop (length tok + 1) (drop start buf)" by (simp add: add.commute add.left_commute)
        also have "\<dots> = drop 1 tail" by (simp add: ds r1)
        finally show ?thesis .
      qed
      ultimately show ?thesis using st e unfolding tok_def tail_def by blast
    qed }
qed

section \<open>The result of \<open>node_features_p_job_xlate\<close>\<close>

lemma amp_set: "is_amp = (\<lambda>c. c \<in> set ''&'')"
  by (rule ext) (simp add: is_amp_def)

lemma job_xlate_loop_tokens:
  assumes "NUL \<notin> set (drop pos buf)"
  shows "snd (job_xlate_loop pci buf pos out delim) =
     cat_items out delim
       (filter (\<lambda>t. cpuinfo_features_is_str_ours pci t (- 1)) (spec_tokens is_amp (drop pos buf)))"
  using assms
proof (induction "length (drop pos buf)" arbitrary: buf pos out delim rule: less_induct)
  case less
  define r1 where "r1 = dropWhile is_amp (drop pos buf)"
  note step = strtok_r_step[OF less.prems amp_set, folded r1_def]
  show ?case
  proof (cases "r1 = []")
    case True
    then have "strtok_r buf pos ''&'' = None" by (rule step(1))
    moreover have "spec_tokens is_amp (drop pos buf) = []"
      using True by (subst spec_tokens_step) (simp add: r1_def)
    ultimately show ?thesis by (subst job_xlate_loop.simps) simp
  next
    case False
    from step(2)[OF False] obtain t buf' save' where
      st: "strtok_r buf pos ''&'' = Some (t, buf', save')"
      and tk: "cstr_at buf' t = takeWhile (\<lambda>c. \<not> is_amp c) r1"
      and dr: "drop save' buf' = drop 1 (dropWhile (\<lambda>c. \<not> is_amp c) r1)" by blast
    have sub: "set (drop save' buf') \<subseteq> set (drop pos buf)"
      unfolding dr r1_def
      by (meson in_set_dropD set_dropWhileD subsetI)
    then have nul': "NUL \<notin> set (drop save' buf')" using less.prems by blast
    have "length (drop save' buf') \<le> length (dropWhile (\<lambda>c. \<not> is_amp c) r1) - 1"
      unfolding dr by simp
    also have "\<dots> \<le> length r1 - 1"
      by (simp add: length_dropWhile_le diff_le_mono)
    also have "\<dots> < length r1" using False by simp
    also have "\<dots> \<le> length (drop pos buf)" unfolding r1_def by (rule length_dropWhile_le)
    finally have shorter: "length (drop save' buf') < length (drop pos buf)" .
    note ih = less.hyps[OF shorter nul']
    have toks: "spec_tokens is_amp (drop pos buf) =
        cstr_at buf' t # spec_tokens is_amp (drop save' buf')"
      using False by (subst spec_tokens_step) (simp add: r1_def[symmetric] tk dr)
    show ?thesis
      by (subst job_xlate_loop.simps) (simp add: st toks ih)
  qed
qed

lemma job_xlate_loop_no_amp:
  assumes "NUL \<notin> set jf" "CHR ''&'' \<notin> set jf" "jf \<noteq> []"
  shows "fst (job_xlate_loop pci jf 0 out delim) = jf"
proof -
  have n0: "NUL \<notin> set (drop 0 jf)" using assms(1) by simp
  have r1: "dropWhile is_amp (drop 0 jf) = jf"
    using assms(2,3) by (cases jf) (auto simp: is_amp_def)
  have tw: "takeWhile (\<lambda>c. \<not> is_amp c) jf = jf"
    using assms(2) by (intro takeWhile_all) (auto simp: is_amp_def)
  from strtok_r_step(2)[OF n0 amp_set, unfolded r1, OF assms(3)] obtain t buf' save' where
    st: "strtok_r jf 0 ''&'' = Some (t, buf', save')"
    and dr: "drop save' buf' = drop 1 (dropWhile (\<lambda>c. \<not> is_amp c) jf)"
    and same: "length jf \<le> t + length (takeWhile (\<lambda>c. \<not> is_amp c) jf) \<longrightarrow> buf' = jf" by blast
  have b: "buf' = jf" using same tw by simp
  have dw: "dropWhile (\<lambda>c. \<not> is_amp c) jf = []" using assms(2) by (auto simp: is_amp_def)
  have d0: "drop save' jf = []" using dr unfolding b dw by simp
  then have "NUL \<notin> set (drop save' jf)" by simp
  from strtok_r_step(1)[OF this amp_set] d0
  have "strtok_r jf save' ''&'' = None" by simp
  then have "job_xlate_loop pci jf save' out' delim' = (jf, out')" for out' delim'
    by (subst job_xlate_loop.simps) simp
  then show ?thesis using st b by (subst job_xlate_loop.simps) simp
qed

text \<open>
  C2 (as amended).  For a non-empty job feature expression: when at least one of its
  ampersand-separated tokens carries a prefix of the plugin, the result is those tokens
  in their original order joined by commas; when no token does and the expression holds
  no ampersand, the result is the expression unchanged.
\<close>

theorem job_xlate_owned_tokens_joined_by_commas:
  assumes "NUL \<notin> set jf" and "jf \<noteq> []"
  shows "(filter (\<lambda>t. cpuinfo_features_is_str_ours pci t (- 1)) (spec_tokens is_amp jf) \<noteq> [] \<longrightarrow>
            node_features_p_job_xlate pci (Some jf) =
              Some (join_with '',''
                (filter (\<lambda>t. cpuinfo_features_is_str_ours pci t (- 1)) (spec_tokens is_amp jf)))) \<and>
         (filter (\<lambda>t. cpuinfo_features_is_str_ours pci t (- 1)) (spec_tokens is_amp jf) = [] \<and>
          CHR ''&'' \<notin> set jf \<longrightarrow>
            node_features_p_job_xlate pci (Some jf) = Some jf)"
proof -
  define owned where
    "owned = filter (\<lambda>t. cpuinfo_features_is_str_ours pci t (- 1)) (spec_tokens is_amp jf)"
  obtain copy out where r: "job_xlate_loop pci jf 0 None [] = (copy, out)"
    by (cases "job_xlate_loop pci jf 0 None []") auto
  have "NUL \<notin> set (drop 0 jf)" using assms(1) by simp
  from job_xlate_loop_tokens[OF this, of pci None "[]"]
  have out: "out = join_opt '','' owned"
    by (simp add: r owned_def cat_items_None)
  have a: "node_features_p_job_xlate pci (Some jf) = Some (join_with '','' owned)"
    if "owned \<noteq> []"
    using that assms(2) by (simp add: node_features_p_job_xlate_def r out join_opt_def)
  have b: "node_features_p_job_xlate pci (Some jf) = Some jf"
    if "owned = []" "CHR ''&'' \<notin> set jf"
  proof -
    from job_xlate_loop_no_amp[OF assms(1) that(2) assms(2), of pci None "[]"]
    have "copy = jf" by (simp add: r)
    moreover have "cstr_at jf 0 = jf" using assms(1) cstr_at_nul_free[of 0 jf] by simp
    ultimately show ?thesis
      using that(1) assms(2) by (simp add: node_features_p_job_xlate_def r out join_opt_def)
  qed
  from a b show ?thesis unfolding owned_def by blast
qed

lemma job_xlate_example_tokens:
  "filter (\<lambda>t. cpuinfo_features_is_str_ours False t (- 1))
     (spec_tokens is_amp ''gpu&ISA::avx&bigmem&MODEL::X'') = [''ISA::avx'', ''MODEL::X'']"
  "filter (\<lambda>t. cpuinfo_features_is_str_ours False t (- 1)) (spec_tokens is_amp ''gpu'') = []"
  by code_simp+

theorem job_xlate_owned_tokens_witness:
  "NUL \<notin> set ''gpu&ISA::avx&bigmem&MODEL::X'' \<and>
   node_features_p_job_xlate False (Some ''gpu&ISA::avx&bigmem&MODEL::X'') =
     Some ''ISA::avx,MODEL::X'' \<and>
   CHR ''&'' \<notin> set ''gpu'' \<and>
   node_features_p_job_xlate False (Some ''gpu'') = Some ''gpu''"
proof -
  have h1: "NUL \<notin> set ''gpu&ISA::avx&bigmem&MODEL::X''" and h2: "NUL \<notin> set ''gpu''"
    and h3: "CHR ''&'' \<notin> set ''gpu''" by simp_all
  show ?thesis
    using job_xlate_owned_tokens_joined_by_commas[OF h1, of False]
      job_xlate_owned_tokens_joined_by_commas[OF h2, of False]
    by (simp add: job_xlate_example_tokens join_with_def)
qed

text \<open>
  C2 as stated fails: two owned tokens come back joined by a comma, not by an
  ampersand; and of two tokens that are not owned only the first comes back.
\<close>

theorem job_xlate_ampersand_counterexample:
  "node_features_p_job_xlate False (Some ''ISA::avx&ISA::avx2'') = Some ''ISA::avx,ISA::avx2'' \<and>
   node_features_p_job_xlate False (Some ''ISA::avx&ISA::avx2'') \<noteq>
     Some (join_with ''&''
        (filter (\<lambda>t. cpuinfo_features_is_str_ours False t (- 1))
           (spec_tokens is_amp ''ISA::avx&ISA::avx2''))) \<and>
   node_features_p_job_xlate False (Some ''gpu&bigmem'') = Some ''gpu''"
  by code_simp

section \<open>The result of \<open>node_features_p_node_xlate\<close>\<close>




















text \<open>
  C1, the code at the failing input.  The original features hold the token \<open>avx2\<close>,
  which carries no prefix of the plugin and is no token of the new features
  \<open>ISA::avx2\<close>; the claim has it appended, giving \<open>ISA::avx2,avx2,Gen1\<close>.  The code
  finds \<open>avx2\<close> at the end of \<open>ISA::avx2\<close> and drops it.
\<close>

theorem node_xlate_drops_token_that_ends_another:
  "\<not> cpuinfo_features_is_str_ours False ''avx2'' (- 1) \<and>
   ''avx2'' \<notin> set (spec_tokens is_comma ''ISA::avx2'') \<and>
   contains_str (Some ''ISA::avx2'') ''avx2'' (Some '','') = Some True \<and>
   node_features_p_node_xlate False (Some ''ISA::avx2'') (Some ''avx2,Gen1'') None =
     Inr (Some ''ISA::avx2,Gen1'')"
  by code_simp

section \<open>The cache size parser\<close>

lemma toupper_cases:
  "toupper c = CHR ''G'' \<longleftrightarrow> c = CHR ''G'' \<or> c = CHR ''g''"
  "toupper c = CHR ''M'' \<longleftrightarrow> c = CHR ''M'' \<or> c = CHR ''m''"
  "toupper c = CHR ''K'' \<longleftrightarrow> c = CHR ''K'' \<or> c = CHR ''k''"
  "toupper c = CHR ''B'' \<longleftrightarrow> c = CHR ''B'' \<or> c = CHR ''b''"
  "toupper c = NUL \<longleftrightarrow> c = NUL"
  unfolding toupper_def by (auto split: option.splits if_splits)

lemma strtod_decimal_examples:
  "strtod_decimal ''46080 KB'' = (46080, 5)"
  "strtod_decimal ''512K'' = (512, 3)"
  "strtod_decimal ''8 MB'' = (8, 1)"
  "strtod_decimal ''2.9 KB'' = (29 / 10, 3)"
  by (simp_all add: strtod_decimal_def Let_def isspace_def isdigit_def deref_def digits_val_def digit_val_def)


lemma cache_size_after_strtod:
  assumes "NUL \<notin> set rest"
  shows "(let endp = rest;
                u = toupper (deref endp);
                numerical_val = (if u = CHR ''G'' then v * 1024 else v);
                numerical_val =
                  (if u = CHR ''G'' \<or> u = CHR ''M'' then numerical_val * 1024 else numerical_val);
                endp = (if u = CHR ''G'' \<or> u = CHR ''M'' \<or> u = CHR ''K'' then tl endp else endp);
                numerical_val =
                  (if u = CHR ''B'' then numerical_val / 1024 else numerical_val)
            in if toupper (deref endp) = CHR ''B'' \<or> toupper (deref endp) = NUL
               then (case to_unsigned_int numerical_val of
                       Inl e \<Rightarrow> Inl e
                     | Inr kb \<Rightarrow> Inr (True, cif\<lparr>cache_kb := kb\<rparr>))
               else Inr (False, cif)) =
         (case spec_scaled_kb v rest of
            None \<Rightarrow> Inr (False, cif)
          | Some kb \<Rightarrow> (case to_unsigned_int kb of
                         Inl e \<Rightarrow> Inl e
                       | Inr n \<Rightarrow> Inr (True, cif\<lparr>cache_kb := n\<rparr>)))"
proof (cases rest)
  case Nil
  then show ?thesis by (simp add: deref_def spec_scaled_kb_def toupper_cases)
next
  case (Cons u after)
  then have u0: "u \<noteq> NUL" and a0: "NUL \<notin> set after" using assms by auto
  show ?thesis
  proof (cases after)
    case Nil
    then show ?thesis using Cons u0
      by (auto simp: deref_def spec_scaled_kb_def unit_multiplier_def toupper_cases Let_def mult.commute)
  next
    case (Cons a more)
    then have "a \<noteq> NUL" using a0 by auto
    then show ?thesis using \<open>rest = u # after\<close> Cons u0
      by (auto simp: deref_def spec_scaled_kb_def unit_multiplier_def toupper_cases Let_def mult.commute)
  qed
qed


lemma floor_29_10: "\<lfloor>29 / 10 :: rat\<rfloor> = 2"
  by (rule floor_unique) simp_all

lemma cache_size_examples:
  "cpuinfo_parse_cache_size strtod_decimal cif ''46080 KB'' = Inr (True, cif\<lparr>cache_kb := 46080\<rparr>)"
  "cpuinfo_parse_cache_size strtod_decimal cif ''512K'' = Inr (True, cif\<lparr>cache_kb := 512\<rparr>)"
  "cpuinfo_parse_cache_size strtod_decimal cif ''8 MB'' = Inr (True, cif\<lparr>cache_kb := 8192\<rparr>)"
  "cpuinfo_parse_cache_size strtod_decimal cif ''2.9 KB'' = Inr (True, cif\<lparr>cache_kb := 2\<rparr>)"
  by (simp_all add: cpuinfo_parse_cache_size_def strtod_decimal_examples Let_def isspace_def
      deref_def toupper_cases to_unsigned_int_def floor_29_10)

text \<open>
  C5.  After the number that \<open>strtod\<close> reads and any white space, the result of
  \<open>cpuinfo_parse_cache_size\<close> follows the unit rule of the specification: \<open>G\<close> scales by
  1024 squared, \<open>M\<close> by 1024 and \<open>K\<close> by 1, each followed by \<open>B\<close> or the end of the string;
  \<open>B\<close> alone divides by 1024; no unit leaves the number; any other unit and a missing
  number fail and leave the record as it is.  The value stored is the floor of the
  scaled number (for a number that fits an \<open>unsigned int\<close>).  \<open>46080 KB\<close> gives 46080,
  \<open>512K\<close> gives 512, \<open>8 MB\<close> gives 8192, and \<open>2.9 KB\<close> gives 2.
\<close>

theorem cpuinfo_parse_cache_size_units:
  "(NUL \<notin> set txt \<longrightarrow>
      cpuinfo_parse_cache_size strtod cif txt =
        (case (if 0 < snd (strtod txt)
               then spec_scaled_kb (fst (strtod txt)) (dropWhile isspace (drop (snd (strtod txt)) txt))
               else None) of
           None \<Rightarrow> Inr (False, cif)
         | Some kb \<Rightarrow>
             if kb \<le> - 1 \<or> 2 ^ 32 \<le> kb then Inl OutOfRange
             else Inr (True, cif\<lparr>cache_kb := nat \<lfloor>kb\<rfloor>\<rparr>))) \<and>
   cpuinfo_parse_cache_size strtod_decimal cif ''46080 KB'' = Inr (True, cif\<lparr>cache_kb := 46080\<rparr>) \<and>
   cpuinfo_parse_cache_size strtod_decimal cif ''512K'' = Inr (True, cif\<lparr>cache_kb := 512\<rparr>) \<and>
   cpuinfo_parse_cache_size strtod_decimal cif ''8 MB'' = Inr (True, cif\<lparr>cache_kb := 8192\<rparr>) \<and>
   cpuinfo_parse_cache_size strtod_decimal cif ''2.9 KB'' = Inr (True, cif\<lparr>cache_kb := 2\<rparr>)"
proof -
  have "cpuinfo_parse_cache_size strtod cif txt =
        (case (if 0 < snd (strtod txt)
               then spec_scaled_kb (fst (strtod txt)) (dropWhile isspace (drop (snd (strtod txt)) txt))
               else None) of
           None \<Rightarrow> Inr (False, cif)
         | Some kb \<Rightarrow>
             if kb \<le> - 1 \<or> 2 ^ 32 \<le> kb then Inl OutOfRange
             else Inr (True, cif\<lparr>cache_kb := nat \<lfloor>kb\<rfloor>\<rparr>))"
    if nul: "NUL \<notin> set txt"
  proof (cases "0 < snd (strtod txt)")
    case False
    then show ?thesis by (simp add: cpuinfo_parse_cache_size_def split_beta)
  next
    case True
    have "set (dropWhile isspace (drop (snd (strtod txt)) txt)) \<subseteq> set txt"
      by (meson in_set_dropD set_dropWhileD subsetI)
    then have "NUL \<notin> set (dropWhile isspace (drop (snd (strtod txt)) txt))" using nul by blast
    from cache_size_after_strtod[OF this, of "fst (strtod txt)" cif]
    show ?thesis using True
      by (simp add: cpuinfo_parse_cache_size_def split_beta to_unsigned_int_def
          split: option.splits)
  qed
  then show ?thesis by (simp add: cache_size_examples)
qed

theorem cpuinfo_parse_cache_size_units_witness:
  "NUL \<notin> set ''1 GB'' \<and>
   strtod_decimal ''1 GB'' = (1, 1) \<and>
   spec_scaled_kb 1 ''GB'' = Some (1024 * 1024) \<and>
   cpuinfo_parse_cache_size strtod_decimal cpuinfo_features_init ''1 GB'' =
     Inr (True, cpuinfo_features_init\<lparr>cache_kb := 1048576\<rparr>)"
proof -
  have h: "NUL \<notin> set ''1 GB''" by simp
  have s: "strtod_decimal ''1 GB'' = (1, 1)"
    by (simp add: strtod_decimal_def Let_def isspace_def isdigit_def deref_def digits_val_def
        digit_val_def)
  have k: "spec_scaled_kb 1 ''GB'' = Some (1024 * 1024)"
    by (simp add: spec_scaled_kb_def unit_multiplier_def)
  from cpuinfo_parse_cache_size_units[of "''1 GB''" strtod_decimal cpuinfo_features_init] h
  have "cpuinfo_parse_cache_size strtod_decimal cpuinfo_features_init ''1 GB'' =
     Inr (True, cpuinfo_features_init\<lparr>cache_kb := 1048576\<rparr>)"
    by (simp add: s k isspace_def)
  with h s k show ?thesis by blast
qed

section \<open>The model name parser\<close>

lemma model_name_scan_examples:
  "model_name_scan ''Intel(R) Xeon(R) CPU E5-2695 v4 @ 2.10GHz'' = Inr (Some ''E5-2695_v4'')"
  "model_name_scan ''Intel Core Processor (Broadwell)'' = Inl ReadPastEnd"
  "model_name_scan ''Common KVM processor'' = Inr None"
  by code_simp+

lemma model_name_lead_in_examples:
  "strstr ''Intel(R) Xeon(R) CPU E5-2695 v4 @ 2.10GHz'' ''Gold '' = None"
  "strstr ''Intel(R) Xeon(R) CPU E5-2695 v4 @ 2.10GHz'' ''EPYC '' = None"
  "strstr ''Intel Core Processor (Broadwell)'' ''Gold '' = None"
  "strstr ''Intel Core Processor (Broadwell)'' ''EPYC '' = None"
  "strstr ''Common KVM processor'' ''Gold '' = None"
  "strstr ''Common KVM processor'' ''EPYC '' = None"
  "strstr ''AMD EPYC 7502 32-Core Processor'' ''Gold '' = None"
  "strstr ''AMD EPYC 7502 32-Core Processor'' ''EPYC '' = Some ''EPYC 7502 32-Core Processor''"
  by code_simp+

lemma model_name_anchored_example:
  "isalnum (deref ''7502 32-Core Processor'')"
  "match_core ''7502 32-Core Processor'' = Some '' 32-Core Processor''"
  "copy_model ''EPYC 7502 32-Core Processor'' '' 32-Core Processor'' = ''EPYC_7502''"
  by code_simp+

text \<open>
  The two examples of C6 hold, and a text without any match that ends in an
  alphanumeric character makes the call fail and leaves the record as it is.
\<close>

lemma cpuinfo_parse_model_name_examples:
  "cpuinfo_parse_model_name cif ''Intel(R) Xeon(R) CPU E5-2695 v4 @ 2.10GHz'' =
     Inr (True, cif\<lparr>model_name := Some ''E5-2695_v4''\<rparr>)"
  "cpuinfo_parse_model_name cif ''AMD EPYC 7502 32-Core Processor'' =
     Inr (True, cif\<lparr>model_name := Some ''EPYC_7502''\<rparr>)"
  "cpuinfo_parse_model_name cif ''Common KVM processor'' = Inr (False, cif)"
  by (simp_all add: cpuinfo_parse_model_name_def model_name_scan_examples
      model_name_lead_in_examples model_name_anchored_example)

text \<open>
  C6, the code at the failing input.  The text \<open>Intel Core Processor (Broadwell)\<close> holds
  no match, so the claim has the call fail with the stored model name unchanged.  The
  generic loop reaches the closing parenthesis, its inner loop steps over it and over the
  terminating NUL, and the call reads behind the end of the string.
\<close>

theorem cpuinfo_parse_model_name_reads_past_end:
  "cpuinfo_parse_model_name cif ''Intel Core Processor (Broadwell)'' = Inl ReadPastEnd"
  by (simp add: cpuinfo_parse_model_name_def model_name_scan_examples
      model_name_lead_in_examples)

text \<open>
  How far the defect reaches.  A text without any digit holds no match.  The call then
  fails as it should exactly when the text is empty or ends in an alphanumeric
  character; in every other case it reads behind the end of the string.
\<close>

lemma match_core_no_digit:
  assumes "\<forall>c \<in> set s. \<not> isdigit c"
  shows "match_core s = None"
proof -
  define e where "e = dropWhile (\<lambda>c. isalpha c \<or> c = CHR ''-'') (tl s)"
  have "set e \<subseteq> set s"
    unfolding e_def by (metis set_dropWhileD list.set_sel(2) subsetI tl_Nil)
  then have "\<not> isdigit (deref e)"
    using assms by (cases e) (auto simp: deref_def isdigit_def)
  then show ?thesis by (simp add: match_core_def e_def Let_def)
qed

lemma model_name_scan_no_digit:
  assumes "\<forall>c \<in> set s. \<not> isdigit c"
  shows "model_name_scan s = (if s = [] \<or> isalnum (last s) then Inr None else Inl ReadPastEnd)"
  using assms
proof (induction s rule: length_induct)
  case (1 s)
  show ?case
  proof (cases "s = []")
    case True
    then show ?thesis by (subst model_name_scan.simps) simp
  next
    case ne: False
    have step: "model_name_scan s =
        (case dropWhile (\<lambda>c. \<not> isalnum c) s of
           [] \<Rightarrow> Inl ReadPastEnd
         | c # cs \<Rightarrow>
             (case match_core (c # cs) of
                Some e \<Rightarrow> Inr (Some (copy_model (c # cs) (version_suffix e)))
              | None \<Rightarrow> model_name_scan cs))"
      using ne by (subst model_name_scan.simps) simp
    show ?thesis
    proof (cases "dropWhile (\<lambda>c. \<not> isalnum c) s")
      case Nil
      then have "\<forall>c \<in> set s. \<not> isalnum c" by simp
      then have "\<not> isalnum (last s)" using ne by simp
      moreover have "model_name_scan s = Inl ReadPastEnd" unfolding step Nil by simp
      ultimately show ?thesis using ne by simp
    next
      case (Cons c cs)
      have s: "s = takeWhile (\<lambda>c. \<not> isalnum c) s @ c # cs"
        using Cons by (metis takeWhile_dropWhile_id)
      have c: "isalnum c" using Cons by (metis hd_dropWhile list.sel(1) list.distinct(1))
      have sub: "set (c # cs) \<subseteq> set s" using Cons by (metis set_dropWhileD subsetI)
      then have nd: "\<forall>x \<in> set (c # cs). \<not> isdigit x" using 1(2) by blast
      have "length cs < length s" using s by (metis length_append length_Cons less_add_Suc2 add_Suc_right less_Suc_eq trans_less_add2)
      moreover have "\<forall>x \<in> set cs. \<not> isdigit x" using nd by simp
      ultimately have ih: "model_name_scan cs =
          (if cs = [] \<or> isalnum (last cs) then Inr None else Inl ReadPastEnd)"
        using 1(1) by blast
      have "last s = last (c # cs)" using s by (metis last_appendR list.distinct(1))
      then have "isalnum (last s) \<longleftrightarrow> cs = [] \<or> isalnum (last cs)" using c by auto
      moreover have "model_name_scan s = model_name_scan cs"
        unfolding step Cons using match_core_no_digit[OF nd] by simp
      ultimately show ?thesis using ne ih by simp
    qed
  qed
qed

lemma cpuinfo_parse_model_name_no_digit:
  assumes "\<forall>c \<in> set txt. \<not> isdigit c"
  shows "cpuinfo_parse_model_name cif txt =
     (if txt = [] \<or> isalnum (last txt) then Inr (False, cif) else Inl ReadPastEnd)"
proof -
  have anchored: "match_core (drop 5 pre) = None" if "strstr txt lead = Some pre" for lead pre
  proof -
    from strstr_Some[OF that] obtain a rest where "txt = a @ lead @ rest" "pre = lead @ rest"
      by blast
    then have "set (drop 5 pre) \<subseteq> set txt" by (auto dest: in_set_dropD)
    then show ?thesis using assms by (intro match_core_no_digit) blast
  qed
  show ?thesis
    using anchored model_name_scan_no_digit[OF assms]
    by (auto simp: cpuinfo_parse_model_name_def Let_def split: option.splits)
qed

section \<open>The lines the reader yields\<close>

lemma nextline_loop_False:
  assumes "nextline_loop can_alloc this = (False, this')"
    and "\<forall>n. can_alloc n" and "0 < chunk_size this"
  shows "chunk this' = [] \<and> data (stream this') = [] \<and>
         err_code this' = (if failing (stream this) then - 1 else 0) \<and>
         line_buffer this' = line_buffer this @ chunk this @ data (stream this)"
  using assms
proof (induction can_alloc this rule: nextline_loop.induct)
  case (1 can_alloc this)
  obtain st rest line cap where cc:
    "copy_chunk can_alloc (chunk this) (line_buffer this) (capacity this) = (st, rest, line, cap)"
    by (metis prod_cases4)
  from copy_chunk_consumed[OF cc] 1(4) obtain consumed where
    c: "chunk this = consumed @ rest" "line = line_buffer this @ consumed"
    "st = More \<longrightarrow> rest = []" "st \<noteq> NoMem" by blast
  define this1 where "this1 = this\<lparr>chunk := rest, line_buffer := line, capacity := cap\<rparr>"
  show ?case
  proof (cases "rest = []")
    case True
    obtain bytes st' where fr: "fread (chunk_size this1) (stream this1) = (bytes, st')"
      by (cases "fread (chunk_size this1) (stream this1)") auto
    show ?thesis
    proof (cases "bytes = []")
      case True
      then have e: "data (stream this) = []" using fr 1(5)
        by (auto simp: fread_def this1_def)
      have "this' = this1\<lparr>stream := st', err_code := (if ferror st' then - 1 else 0)\<rparr>"
        using 1(3) cc c(4) \<open>rest = []\<close> fr True
        by (subst (asm) nextline_loop.simps) (simp add: this1_def)
      then show ?thesis using fr e c \<open>rest = []\<close>
        by (auto simp: this1_def fread_def ferror_def)
    next
      case False
      define this2 where "this2 = this1\<lparr>stream := st', chunk := bytes\<rparr>"
      have rec: "nextline_loop can_alloc this2 = (False, this')"
        using 1(3) cc c(4) \<open>rest = []\<close> fr False
        by (subst (asm) nextline_loop.simps) (simp add: this1_def this2_def)
      have cs2: "0 < chunk_size this2" using 1(5) by (simp add: this2_def this1_def)
      have ih: "chunk this' = [] \<and> data (stream this') = [] \<and>
         err_code this' = (if failing (stream this2) then - 1 else 0) \<and>
         line_buffer this' = line_buffer this2 @ chunk this2 @ data (stream this2)"
        using 1(1)[OF cc[symmetric] refl refl this1_def c(4) \<open>rest = []\<close> fr[symmetric] False]
          rec 1(4) cs2 unfolding this2_def by blast
      have s2: "chunk this2 @ data (stream this2) = data (stream this)"
        using fr by (auto simp: this2_def this1_def fread_def)
      have f2: "failing (stream this2) = failing (stream this)"
        "line_buffer this2 = line_buffer this @ consumed"
        using fr c by (auto simp: this2_def this1_def fread_def)
      show ?thesis using ih c \<open>rest = []\<close> s2 f2 by auto
    qed
  next
    case ne: False
    then have dn: "st = Done" using c(3,4) by (cases st) auto
    have "grow can_alloc (length line) cap \<noteq> None"
      using 1(4) by (simp add: grow_def Let_def)
    then obtain cap1 where "grow can_alloc (length line) cap = Some cap1" by blast
    then have "nextline_loop can_alloc this = (True, this1\<lparr>capacity := cap1, line_buffer := line @ [NUL]\<rparr>)"
      using cc dn ne by (subst nextline_loop.simps) (simp add: this1_def Let_def)
    with 1(3) show ?thesis by simp
  qed
qed

lemma line_reader_lines_unterminated:
  assumes "\<forall>n. can_alloc n" and "0 < chunk_size this" and "\<not> failing (stream this)"
    and "line_reader_lines can_alloc this = (ls, final)"
  shows "err_code final = 0 \<and> chunk final = [] \<and> data (stream final) = [] \<and>
         (\<exists>rest. chunk this @ data (stream this) = concat (map butlast ls) @ rest) \<and>
         (\<forall>l \<in> set ls. butlast l \<noteq> [] \<and>
            (last (butlast l) = NUL \<or> last (butlast l) = CHR 0x0A))"
  using assms
proof (induction can_alloc this arbitrary: ls final rule: line_reader_lines.induct)
  case (1 can_alloc this)
  obtain got this' where nl: "line_reader_nextline can_alloc this = (got, this')"
    by (cases "line_reader_nextline can_alloc this") auto
  then have loop: "nextline_loop can_alloc (this\<lparr>line_buffer := []\<rparr>) = (got, this')"
    by (simp add: line_reader_nextline_def)
  show ?case
  proof (cases got)
    case False
    with 1(5) nl have e: "ls = []" "final = this'"
      by (subst (asm) line_reader_lines.simps, simp)+
    have loopF: "nextline_loop can_alloc (this\<lparr>line_buffer := []\<rparr>) = (False, this')"
      using loop False by simp
    from nextline_loop_False[OF loopF 1(2)] 1(3,4)
    show ?thesis unfolding e by simp
  next
    case True
    have loopT: "nextline_loop can_alloc (this\<lparr>line_buffer := []\<rparr>) = (True, this')"
      using loop True by simp
    from nextline_loop_True[OF loopT] obtain consumed where
      c: "consumed \<noteq> []" "last consumed = NUL \<or> last consumed = CHR 0x0A"
      "line_buffer this' = consumed @ [NUL]"
      "chunk this @ data (stream this) = consumed @ chunk this' @ data (stream this')"
      "failing (stream this') = failing (stream this)"
      "chunk_size this' = chunk_size this" by auto
    obtain ls' final' where rec: "line_reader_lines can_alloc this' = (ls', final')"
      by (cases "line_reader_lines can_alloc this'") auto
    with 1(5) nl True have e: "ls = line_buffer this' # ls'" "final = final'"
      by (subst (asm) line_reader_lines.simps, simp)+
    have ih: "err_code final' = 0 \<and> chunk final' = [] \<and> data (stream final') = [] \<and>
         (\<exists>rest. chunk this' @ data (stream this') = concat (map butlast ls') @ rest) \<and>
         (\<forall>l \<in> set ls'. butlast l \<noteq> [] \<and>
            (last (butlast l) = NUL \<or> last (butlast l) = CHR 0x0A))"
    proof -
      have a: "0 < chunk_size this'" using 1(3) c(6) by simp
      have b: "\<not> failing (stream this')" using 1(4) c(5) by simp
      show ?thesis by (rule 1(1)[OF nl[symmetric] True 1(2) a b rec])
    qed
    then obtain rest where r: "chunk this' @ data (stream this') = concat (map butlast ls') @ rest"
      by blast
    have "chunk this @ data (stream this) = concat (map butlast ls) @ rest"
      unfolding e using c(3,4) r by simp
    then show ?thesis using ih c(1,2,3) unfolding e by auto
  qed
qed

lemma terminated_prefix:
  assumes eq: "pre @ tail = C @ rest"
    and last: "C \<noteq> [] \<Longrightarrow> last C = NUL \<or> last C = CHR 0x0A"
    and tail: "\<forall>c \<in> set tail. c \<noteq> NUL \<and> c \<noteq> CHR 0x0A"
  shows "prefix C pre"
proof (cases "C = []")
  case True
  then show ?thesis by simp
next
  case False
  have le: "length C \<le> length pre"
  proof (rule ccontr)
    assume "\<not> length C \<le> length pre"
    then have gt: "length pre < length C" by simp
    have "last C = C ! (length C - 1)" using False by (simp add: last_conv_nth)
    also have "\<dots> = (C @ rest) ! (length C - 1)" using False by (simp add: nth_append)
    also have "\<dots> = (pre @ tail) ! (length C - 1)" using eq by simp
    also have "\<dots> = tail ! (length C - 1 - length pre)"
    proof -
      have "\<not> length C - 1 < length pre" using gt by simp
      then show ?thesis by (simp add: nth_append)
    qed
    finally have l: "last C = tail ! (length C - 1 - length pre)" .
    have "length C \<le> length pre + length tail"
      using eq by (metis length_append le_add1)
    then have "length C - 1 - length pre < length tail" using gt by simp
    then have "tail ! (length C - 1 - length pre) \<in> set tail" by simp
    with l tail last[OF False] show False by metis
  qed
  have "C = take (length C) (pre @ tail)" using eq by simp
  also have "\<dots> = take (length C) pre" using le by simp
  finally show ?thesis by (metis take_is_prefix)
qed

lemma concat_segments_last:
  assumes "\<forall>l \<in> set ls. butlast l \<noteq> [] \<and> (last (butlast l) = NUL \<or> last (butlast l) = CHR 0x0A)"
    and "concat (map butlast ls) \<noteq> []"
  shows "last (concat (map butlast ls)) = NUL \<or> last (concat (map butlast ls)) = CHR 0x0A"
  using assms
proof (induction ls rule: rev_induct)
  case Nil
  then show ?case by simp
next
  case (snoc l ls)
  then have "butlast l \<noteq> []" "last (butlast l) = NUL \<or> last (butlast l) = CHR 0x0A" by auto
  then show ?case by simp
qed

lemma line_reader_trim_buffer: "line_buffer (line_reader_trim this) = trim_bytes (line_buffer this)"
  by (simp add: line_reader_trim_def trim_bytes_def Let_def)

lemma line_reader_nextline_trim:
  "line_reader_nextline can_alloc (line_reader_trim this) = line_reader_nextline can_alloc this"
  by (simp add: line_reader_nextline_def line_reader_trim_def)

lemma line_reader_lines_trim:
  "line_reader_lines can_alloc (line_reader_trim this) = line_reader_lines can_alloc this"
  by (subst line_reader_lines.simps, subst (2) line_reader_lines.simps)
     (simp add: line_reader_nextline_trim)

lemma parse_file_loop_lines:
  "(case parse_file_loop strtod can_alloc cif lr of Inl e \<Rightarrow> Inl e | Inr (cif', lr') \<Rightarrow> Inr cif') =
     parse_lines strtod cif (fst (line_reader_lines can_alloc lr))"
proof (induction strtod can_alloc cif lr rule: parse_file_loop.induct)
  case (1 strtod can_alloc cif lr)
  obtain got lr' where nl: "line_reader_nextline can_alloc lr = (got, lr')"
    by (cases "line_reader_nextline can_alloc lr") auto
  show ?case
  proof (cases got)
    case False
    with nl show ?thesis
      by (subst parse_file_loop.simps, subst line_reader_lines.simps) simp
  next
    case True
    define line where "line = cstr_at (trim_bytes (line_buffer lr')) 0"
    obtain ls final where rec: "line_reader_lines can_alloc lr' = (ls, final)"
      by (cases "line_reader_lines can_alloc lr'") auto
    have lines: "fst (line_reader_lines can_alloc lr) = line_buffer lr' # ls"
      using nl True rec by (subst line_reader_lines.simps) simp
    show ?thesis
    proof (cases "line = []")
      case e: True
      then show ?thesis using nl True
        by (subst parse_file_loop.simps)
           (simp add: lines line_def line_reader_trim_buffer Let_def)
    next
      case ne: False
      show ?thesis
      proof (cases "cpuinfo_parse_line strtod cif line")
        case (Inl err)
        then show ?thesis using nl True ne
          by (subst parse_file_loop.simps)
             (simp add: lines line_def line_reader_trim_buffer Let_def)
      next
        case (Inr r)
        obtain ok cif1 where r: "r = (ok, cif1)" by (cases r) auto
        have ih: "(case parse_file_loop strtod can_alloc cif1 (line_reader_trim lr') of
              Inl e \<Rightarrow> Inl e | Inr (cif', lr') \<Rightarrow> Inr cif') =
            parse_lines strtod cif1 (fst (line_reader_lines can_alloc (line_reader_trim lr')))"
        proof -
          have a: "cstr_at (line_buffer (line_reader_trim lr')) 0 \<noteq> []"
            using ne by (simp add: line_def line_reader_trim_buffer)
          have b: "cpuinfo_parse_line strtod cif (cstr_at (line_buffer (line_reader_trim lr')) 0) = Inr r"
            using Inr by (simp add: line_def line_reader_trim_buffer)
          show ?thesis by (rule 1[OF nl[symmetric] True refl refl a b r[symmetric]])
        qed
        show ?thesis using nl True ne Inr r ih
          by (subst parse_file_loop.simps)
             (simp add: lines line_def line_reader_trim_buffer Let_def line_reader_lines_trim rec)
      qed
    qed
  qed
qed

lemma line_reader_lines_prefix:
  assumes tail: "\<forall>c \<in> set tail. c \<noteq> NUL \<and> c \<noteq> CHR 0x0A"
    and lr: "line_reader_create (\<lambda>_. True) (Some \<lparr>data = pre @ tail, failing = False\<rparr>) n = Some this"
    and ls: "line_reader_lines (\<lambda>_. True) this = (ls, final)"
  shows "err_code final = 0 \<and> data (stream final) = [] \<and> chunk final = [] \<and>
         prefix (concat (map butlast ls)) pre"
proof -
  from lr have td: "this = \<lparr>stream = \<lparr>data = pre @ tail, failing = False\<rparr>, err_code = 0,
      line_buffer = [], capacity = 0, chunk_size = (if n < 128 then 128 else n), chunk = []\<rparr>"
    by (simp add: line_reader_create_def Let_def)
  have cs: "0 < chunk_size this" and nf: "\<not> failing (stream this)" by (simp_all add: td)
  have al: "\<forall>n. (\<lambda>_. True) n" by simp
  from line_reader_lines_unterminated[OF al cs nf ls] obtain rest where
    f: "err_code final = 0" "chunk final = []" "data (stream final) = []"
    and eq: "chunk this @ data (stream this) = concat (map butlast ls) @ rest"
    and seg: "\<forall>l \<in> set ls. butlast l \<noteq> [] \<and>
            (last (butlast l) = NUL \<or> last (butlast l) = CHR 0x0A)" by blast
  have eq': "pre @ tail = concat (map butlast ls) @ rest" using eq by (simp add: td)
  have "prefix (concat (map butlast ls)) pre"
    by (rule terminated_prefix[OF eq' concat_segments_last[OF seg] tail])
  with f show ?thesis by simp
qed

text \<open>
  C10.  Let the input end in a non-empty run \<open>tail\<close> without NUL or newline, behind any
  bytes \<open>pre\<close>, and let reads and allocations succeed.  For every chunk size the reader
  is created, the call of \<open>line_reader_nextline\<close> that ends the sequence of lines leaves
  the error code 0 with all input consumed, and the lines yielded before it, taken
  without the NUL appended to each, make up a prefix of \<open>pre\<close>: no byte of \<open>tail\<close> is in
  any of them.  \<open>cpuinfo_parse_file\<close> returns true with the record that parsing exactly
  those lines gives.
\<close>

theorem unterminated_final_line_never_yielded:
  assumes "tail \<noteq> []" and "\<forall>c \<in> set tail. c \<noteq> NUL \<and> c \<noteq> CHR 0x0A"
  shows "(\<exists>this ls final.
            line_reader_create (\<lambda>_. True) (Some \<lparr>data = pre @ tail, failing = False\<rparr>) n = Some this \<and>
            line_reader_lines (\<lambda>_. True) this = (ls, final) \<and>
            err_code final = 0 \<and> data (stream final) = [] \<and> chunk final = [] \<and>
            prefix (concat (map butlast ls)) pre) \<and>
         (\<exists>ls. yielded_lines (\<lambda>_. True) (Some \<lparr>data = pre @ tail, failing = False\<rparr>) 0 = Some ls \<and>
            prefix (concat (map butlast ls)) pre \<and>
            cpuinfo_parse_file strtod (\<lambda>_. True) cif (Some \<lparr>data = pre @ tail, failing = False\<rparr>) =
              (case parse_lines strtod cif ls of
                 Inl e \<Rightarrow> Inl e
               | Inr cif' \<Rightarrow> Inr (True, cif')))"
proof -
  have create: "\<exists>this. line_reader_create (\<lambda>_. True) (Some \<lparr>data = pre @ tail, failing = False\<rparr>) m = Some this"
    for m by (simp add: line_reader_create_def Let_def)
  have first: "\<exists>this ls final.
            line_reader_create (\<lambda>_. True) (Some \<lparr>data = pre @ tail, failing = False\<rparr>) n = Some this \<and>
            line_reader_lines (\<lambda>_. True) this = (ls, final) \<and>
            err_code final = 0 \<and> data (stream final) = [] \<and> chunk final = [] \<and>
            prefix (concat (map butlast ls)) pre"
  proof -
    from create obtain this where
      c: "line_reader_create (\<lambda>_. True) (Some \<lparr>data = pre @ tail, failing = False\<rparr>) n = Some this"
      by blast
    obtain ls final where l: "line_reader_lines (\<lambda>_. True) this = (ls, final)"
      by (cases "line_reader_lines (\<lambda>_. True) this") auto
    from line_reader_lines_prefix[OF assms(2) c l] c l show ?thesis by blast
  qed
  have second: "\<exists>ls. yielded_lines (\<lambda>_. True) (Some \<lparr>data = pre @ tail, failing = False\<rparr>) 0 = Some ls \<and>
            prefix (concat (map butlast ls)) pre \<and>
            cpuinfo_parse_file strtod (\<lambda>_. True) cif (Some \<lparr>data = pre @ tail, failing = False\<rparr>) =
              (case parse_lines strtod cif ls of
                 Inl e \<Rightarrow> Inl e
               | Inr cif' \<Rightarrow> Inr (True, cif'))"
  proof -
    from create obtain this where
      c: "line_reader_create (\<lambda>_. True) (Some \<lparr>data = pre @ tail, failing = False\<rparr>) 0 = Some this"
      by blast
    obtain ls final where l: "line_reader_lines (\<lambda>_. True) this = (ls, final)"
      by (cases "line_reader_lines (\<lambda>_. True) this") auto
    have y: "yielded_lines (\<lambda>_. True) (Some \<lparr>data = pre @ tail, failing = False\<rparr>) 0 = Some ls"
      by (simp add: yielded_lines_def c l)
    have p: "prefix (concat (map butlast ls)) pre"
      using line_reader_lines_prefix[OF assms(2) c l] by simp
    have "cpuinfo_parse_file strtod (\<lambda>_. True) cif (Some \<lparr>data = pre @ tail, failing = False\<rparr>) =
        (case parse_lines strtod cif ls of Inl e \<Rightarrow> Inl e | Inr cif' \<Rightarrow> Inr (True, cif'))"
    proof (cases "parse_file_loop strtod (\<lambda>_. True) cif this")
      case (Inl e)
      then show ?thesis
        using parse_file_loop_lines[of strtod "\<lambda>_. True" cif this, symmetric]
        by (simp add: cpuinfo_parse_file_def c l)
    next
      case (Inr r)
      then show ?thesis
        using parse_file_loop_lines[of strtod "\<lambda>_. True" cif this, symmetric]
        by (cases r) (simp add: cpuinfo_parse_file_def c l)
    qed
    with y p show ?thesis by blast
  qed
  from first second show ?thesis by blast
qed

lemma unterminated_example_lines:
  "yielded_lines (\<lambda>_. True)
     (Some \<lparr>data = ''vendor_id : X'' @ [CHR 0x0A] @ ''flags : sse'', failing = False\<rparr>) 0 =
   Some [''vendor_id : X'' @ [CHR 0x0A, NUL]]"
  by code_simp

lemma unterminated_example_parse:
  "parse_lines strtod_decimal cpuinfo_features_init [''vendor_id : X'' @ [CHR 0x0A, NUL]] =
     Inr (cpuinfo_features_init\<lparr>vendor_id := Some ''X''\<rparr>)"
  by code_simp

theorem unterminated_final_line_witness:
  "''flags : sse'' \<noteq> [] \<and>
   yielded_lines (\<lambda>_. True)
     (Some \<lparr>data = ''vendor_id : X'' @ [CHR 0x0A] @ ''flags : sse'', failing = False\<rparr>) 0 =
     Some [''vendor_id : X'' @ [CHR 0x0A, NUL]] \<and>
   prefix (concat (map butlast [''vendor_id : X'' @ [CHR 0x0A, NUL]])) (''vendor_id : X'' @ [CHR 0x0A]) \<and>
   cpuinfo_parse_file strtod_decimal (\<lambda>_. True) cpuinfo_features_init
     (Some \<lparr>data = ''vendor_id : X'' @ [CHR 0x0A] @ ''flags : sse'', failing = False\<rparr>) =
     Inr (True, cpuinfo_features_init\<lparr>vendor_id := Some ''X''\<rparr>)"
proof -
  have h1: "''flags : sse'' \<noteq> []" by simp
  have h2: "\<forall>c \<in> set ''flags : sse''. c \<noteq> NUL \<and> c \<noteq> CHR 0x0A" by simp
  from unterminated_final_line_never_yielded[OF h1 h2,
      of "''vendor_id : X'' @ [CHR 0x0A]" 0 strtod_decimal cpuinfo_features_init]
  obtain ls where
    y: "yielded_lines (\<lambda>_. True)
         (Some \<lparr>data = (''vendor_id : X'' @ [CHR 0x0A]) @ ''flags : sse'', failing = False\<rparr>) 0 = Some ls"
    and p: "prefix (concat (map butlast ls)) (''vendor_id : X'' @ [CHR 0x0A])"
    and f: "cpuinfo_parse_file strtod_decimal (\<lambda>_. True) cpuinfo_features_init
         (Some \<lparr>data = (''vendor_id : X'' @ [CHR 0x0A]) @ ''flags : sse'', failing = False\<rparr>) =
         (case parse_lines strtod_decimal cpuinfo_features_init ls of
            Inl e \<Rightarrow> Inl e | Inr cif' \<Rightarrow> Inr (True, cif'))"
    by blast
  from y have ls: "ls = [''vendor_id : X'' @ [CHR 0x0A, NUL]]"
    using unterminated_example_lines by simp
  from f have "cpuinfo_parse_file strtod_decimal (\<lambda>_. True) cpuinfo_features_init
     (Some \<lparr>data = ''vendor_id : X'' @ [CHR 0x0A] @ ''flags : sse'', failing = False\<rparr>) =
     Inr (True, cpuinfo_features_init\<lparr>vendor_id := Some ''X''\<rparr>)"
    unfolding ls using unterminated_example_parse by simp
  moreover from p have "prefix (concat (map butlast [''vendor_id : X'' @ [CHR 0x0A, NUL]]))
      (''vendor_id : X'' @ [CHR 0x0A])" unfolding ls .
  ultimately show ?thesis using h1 unterminated_example_lines by blast
qed

text \<open>
  C9, the code at the failing input.  The stream is 127 times \<open>x\<close>, a newline, \<open>b\<close>, a
  newline, \<open>c\<close> and a newline.  Read in chunks of 128 bytes it yields one line, in which
  the first two lines of the stream run together, because the first newline is the last
  byte of its chunk; read in chunks of 256 bytes it yields these two lines one by one.
  The third line is yielded in neither case.
\<close>

theorem yielded_lines_depend_on_chunk_size:
  "yielded_lines (\<lambda>_. True)
     (Some \<lparr>data = replicate 127 CHR ''x'' @ [CHR 0x0A] @ ''b'' @ [CHR 0x0A] @ ''c'' @ [CHR 0x0A],
            failing = False\<rparr>) 128 =
     Some [replicate 127 CHR ''x'' @ [CHR 0x0A] @ ''b'' @ [CHR 0x0A, NUL]] \<and>
   yielded_lines (\<lambda>_. True)
     (Some \<lparr>data = replicate 127 CHR ''x'' @ [CHR 0x0A] @ ''b'' @ [CHR 0x0A] @ ''c'' @ [CHR 0x0A],
            failing = False\<rparr>) 256 =
     Some [replicate 127 CHR ''x'' @ [CHR 0x0A, NUL], ''b'' @ [CHR 0x0A, NUL]]"
  by code_simp

text \<open>
  C8, the code at the failing input.  The file opens, the first read delivers a complete
  line and the beginning of a second one, and the next read fails.  The reader records
  the error code -1, and \<open>cpuinfo_parse_file\<close> returns true all the same, with the record
  filled from the first line.
\<close>

theorem cpuinfo_parse_file_ignores_read_error:
  "line_reader_create (\<lambda>_. True)
     (Some \<lparr>data = ''vendor_id : X'' @ [CHR 0x0A] @ ''flags : sse'', failing = True\<rparr>) 0 =
     Some \<lparr>stream = \<lparr>data = ''vendor_id : X'' @ [CHR 0x0A] @ ''flags : sse'', failing = True\<rparr>,
           err_code = 0, line_buffer = [], capacity = 0, chunk_size = 128, chunk = []\<rparr> \<and>
   err_code (snd (line_reader_lines (\<lambda>_. True)
     \<lparr>stream = \<lparr>data = ''vendor_id : X'' @ [CHR 0x0A] @ ''flags : sse'', failing = True\<rparr>,
      err_code = 0, line_buffer = [], capacity = 0, chunk_size = 128, chunk = []\<rparr>)) = - 1 \<and>
   cpuinfo_parse_file strtod_decimal (\<lambda>_. True) cpuinfo_features_init
     (Some \<lparr>data = ''vendor_id : X'' @ [CHR 0x0A] @ ''flags : sse'', failing = True\<rparr>) =
     Inr (True, cpuinfo_features_init\<lparr>vendor_id := Some ''X''\<rparr>)"
  by code_simp

end
